theory Spec2Isabelle
  imports Complex_Main "HOL-Library.AList"
begin

section \<open>Social link prediction: the notebook's functions as HOL functions\<close>

text \<open>
  The notebook works on dense NumPy arrays of floats. A two-dimensional array is a list of
  rows; an entry is a real number (the idealisation of a binary64 float: no rounding, no
  NaN, no infinity). What NumPy computes entry by entry (sums, differences, the identity,
  slicing, the minimum search) is defined here. The routines NumPy and SciPy hand to LAPACK in
  floating point (determinant, numerical rank, matrix product, Schur form, inverse) are the
  fields of the record \<open>numerics\<close>: every function of the notebook that calls one takes
  the record as its first argument.
\<close>

subsection \<open>Arrays\<close>

type_synonym matrix = "real list list"

datatype error = ValueError string | KeyError | IndexError

definition shape :: "matrix \<Rightarrow> nat \<times> nat" where
  "shape X = (length X, (case X of [] \<Rightarrow> 0 | r # _ \<Rightarrow> length r))"

definition square :: "nat \<Rightarrow> matrix \<Rightarrow> bool" where
  "square n X = (length X = n \<and> list_all (\<lambda>r. length r = n) X)"

definition zeros :: "nat \<Rightarrow> nat \<Rightarrow> matrix" where
  "zeros r c = replicate r (replicate c 0)"

definition identity :: "nat \<Rightarrow> matrix" where
  "identity n = map (\<lambda>i. map (\<lambda>j. if i = j then 1 else 0) [0..<n]) [0..<n]"

definition mat_add :: "matrix \<Rightarrow> matrix \<Rightarrow> matrix" where
  \<comment> \<open>\<open>X + Y\<close> on arrays of one shape\<close>
  "mat_add X Y = map2 (map2 (+)) X Y"

definition mat_sub :: "matrix \<Rightarrow> matrix \<Rightarrow> matrix" where
  \<comment> \<open>\<open>X - Y\<close> on arrays of one shape\<close>
  "mat_sub X Y = map2 (map2 (-)) X Y"

definition scale :: "matrix \<Rightarrow> real \<Rightarrow> matrix" where
  \<comment> \<open>\<open>X * c\<close> for a scalar \<open>c\<close>\<close>
  "scale X c = map (map (\<lambda>x. x * c)) X"

definition matmul :: "matrix \<Rightarrow> matrix \<Rightarrow> matrix" where
  \<comment> \<open>the matrix product in exact arithmetic\<close>
  "matmul X Y =
     map (\<lambda>i. map (\<lambda>j. \<Sum>k\<leftarrow>[0..<length Y]. X ! i ! k * Y ! k ! j) [0..<snd (shape Y)])
       [0..<length X]"

definition diag :: "matrix \<Rightarrow> real list" where
  \<comment> \<open>\<open>np.diag\<close> of a square array: its main diagonal\<close>
  "diag X = map (\<lambda>i. X ! i ! i) [0..<length X]"

definition set_item :: "matrix \<Rightarrow> nat \<Rightarrow> nat \<Rightarrow> real \<Rightarrow> error + matrix" where
  \<comment> \<open>\<open>X[i,j] = v\<close>; NumPy raises IndexError out of range\<close>
  "set_item X i j v =
     (if i < length X \<and> j < length (X ! i) then Inr (X[i := (X ! i)[j := v]])
      else Inl IndexError)"

definition isclose :: "real \<Rightarrow> real \<Rightarrow> bool" where
  \<comment> \<open>\<open>np.isclose(a, b)\<close> with its defaults \<open>rtol = 1e-5\<close>, \<open>atol = 1e-8\<close>\<close>
  "isclose a b = (\<bar>a - b\<bar> \<le> 1 / 10 ^ 8 + 1 / 10 ^ 5 * \<bar>b\<bar>)"


fun argmin_scan :: "nat \<Rightarrow> real \<Rightarrow> nat \<Rightarrow> real list \<Rightarrow> nat" where
  "argmin_scan best v i [] = best"
| "argmin_scan best v i (x # xs) =
     (if x < v then argmin_scan i x (Suc i) xs else argmin_scan best v (Suc i) xs)"

definition argmin :: "real list \<Rightarrow> error + nat" where
  \<comment> \<open>\<open>np.argmin\<close> of a flat array: the index of the first occurrence of the minimum;
      ValueError on an empty array\<close>
  "argmin xs =
     (case xs of
        [] \<Rightarrow> Inl (ValueError ''attempt to get argmin of an empty sequence'')
      | x # ys \<Rightarrow> Inr (argmin_scan 0 x 1 ys))"

definition unravel_index :: "nat \<Rightarrow> nat \<times> nat \<Rightarrow> nat \<times> nat" where
  \<comment> \<open>\<open>np.unravel_index\<close> of a flat index in a row-major array of the given shape\<close>
  "unravel_index k shp = (k div snd shp, k mod snd shp)"

subsection \<open>Dictionaries\<close>

text \<open>
  A Python dictionary keeps its keys in insertion order, so it is an association list:
  \<open>d[k] = v\<close> is \<open>AList.update k v d\<close> (in place for a known key, at the end for a new one),
  \<open>len(d)\<close> is the length of the list, and \<open>d[k]\<close> raises KeyError for a missing key.
\<close>

definition keys :: "('k \<times> 'v) list \<Rightarrow> 'k set" where
  "keys d = set (map fst d)"

definition dict_get :: "('k \<times> 'v) list \<Rightarrow> 'k \<Rightarrow> error + 'v" where
  "dict_get d k = (case map_of d k of None \<Rightarrow> Inl KeyError | Some v \<Rightarrow> Inr v)"

subsection \<open>The LAPACK-backed routines\<close>

record numerics =
  la_det :: "matrix \<Rightarrow> real"  \<comment> \<open>\<open>scipy.linalg.det\<close>\<close>
  np_matrix_rank :: "matrix \<Rightarrow> nat"  \<comment> \<open>\<open>np.linalg.matrix_rank\<close>\<close>
  np_dot :: "matrix \<Rightarrow> matrix \<Rightarrow> matrix"  \<comment> \<open>\<open>np.dot\<close> and \<open>@\<close>\<close>
  la_schur :: "matrix \<Rightarrow> (complex \<Rightarrow> bool) \<Rightarrow> matrix \<times> matrix \<times> nat"
    \<comment> \<open>\<open>scipy.linalg.schur(A, sort = f)\<close>: the triple \<open>(T, Q, sdim)\<close>\<close>
  la_inv :: "matrix \<Rightarrow> matrix"  \<comment> \<open>\<open>scipy.linalg.inv\<close>\<close>

subsection \<open>\<open>index\<close>\<close>

function index_loop :: "numerics \<Rightarrow> matrix \<Rightarrow> nat \<Rightarrow> nat \<Rightarrow> matrix \<Rightarrow> nat" where
  "index_loop nm A n k Ak =
     (if k \<le> n then
        (let r1 = np_matrix_rank nm Ak;
             r2 = np_matrix_rank nm (np_dot nm A Ak)
         in if r1 = r2 then k else index_loop nm A n (k + 1) (np_dot nm A Ak))
      else k)"
  by pat_completeness auto
termination
  by (relation "measure (\<lambda>(nm, A, n, k, Ak). Suc n - k)") auto

definition index :: "numerics \<Rightarrow> matrix \<Rightarrow> nat" where
  \<comment> \<open>the parameter \<open>tol\<close> of the source is never read\<close>
  "index nm A =
     (if \<not> isclose (la_det nm A) 0 then 0
      else index_loop nm A (length A) 1 A)"

subsection \<open>\<open>is_drazin\<close>\<close>



subsection \<open>\<open>drazin_inverse\<close>\<close>

definition hstack :: "matrix \<Rightarrow> matrix \<Rightarrow> matrix" where
  "hstack X Y = map2 (@) X Y"

definition leading_cols :: "matrix \<Rightarrow> nat \<Rightarrow> matrix" where
  \<comment> \<open>\<open>X[:, :k]\<close>\<close>
  "leading_cols X k = map (take k) X"

definition leading_block :: "matrix \<Rightarrow> nat \<Rightarrow> matrix" where
  \<comment> \<open>\<open>X[:k, :k]\<close>\<close>
  "leading_block X k = map (take k) (take k X)"

definition set_leading_block :: "matrix \<Rightarrow> nat \<Rightarrow> matrix \<Rightarrow> matrix" where
  \<comment> \<open>\<open>Z[:k, :k] = B\<close> for a \<open>k \<times> k\<close> array \<open>B\<close>\<close>
  "set_leading_block Z k B =
     map (\<lambda>i. if i < k then B ! i @ drop k (Z ! i) else Z ! i) [0..<length Z]"

definition drazin_inverse :: "numerics \<Rightarrow> matrix \<Rightarrow> real \<Rightarrow> matrix" where
  "drazin_inverse nm A tol =
     (let n = fst (shape A);
          f = (\<lambda>x. cmod x > tol);
          g = (\<lambda>x. cmod x \<le> tol);
          (T1, Q1, k1) = la_schur nm A f;
          (T2, Q2, k2) = la_schur nm A g;
          U = hstack (leading_cols Q1 k1) (leading_cols Q2 (n - k1));
          U_inv = la_inv nm U;
          V = np_dot nm (np_dot nm U_inv A) U;
          Z = zeros n n;
          Z = (if k1 \<noteq> 0 then set_leading_block Z k1 (la_inv nm (leading_block V k1)) else Z)
      in np_dot nm (np_dot nm U Z) U_inv)"

definition default_tol :: real where
  \<comment> \<open>the default \<open>tol = 1e-4\<close> of \<open>drazin_inverse\<close>\<close>
  "default_tol = 1 / 10 ^ 4"

subsection \<open>\<open>laplacian\<close> and SciPy's \<open>csgraph.laplacian\<close>\<close>

fun laplacian_rows :: "matrix \<Rightarrow> matrix \<Rightarrow> nat \<Rightarrow> error + matrix" where
  \<comment> \<open>the loop \<open>for row in A\<close>, with the array \<open>D\<close> and the counter \<open>j\<close>\<close>
  "laplacian_rows [] D j = Inr D"
| "laplacian_rows (row # rows) D j =
     (case set_item D j j (foldl (+) 0 row) of
        Inl e \<Rightarrow> Inl e
      | Inr D' \<Rightarrow> laplacian_rows rows D' (j + 1))"

definition laplacian :: "matrix \<Rightarrow> error + matrix" where
  "laplacian A =
     (case laplacian_rows A (zeros (fst (shape A)) (snd (shape A))) 0 of
        Inl e \<Rightarrow> Inl e
      | Inr D \<Rightarrow> Inr (mat_sub D A))"

definition fill_diagonal :: "matrix \<Rightarrow> (nat \<Rightarrow> real) \<Rightarrow> matrix" where
  "fill_diagonal X d =
     map (\<lambda>i. map (\<lambda>j. if i = j then d i else X ! i ! j) [0..<length (X ! i)]) [0..<length X]"

definition csg_laplacian :: "matrix \<Rightarrow> matrix" where
  \<comment> \<open>\<open>scipy.sparse.csgraph.laplacian\<close> of a dense square array with its defaults, as SciPy
      documents and implements it: the diagonal of the graph is cleared, the degree of a
      node is its column sum, and the result is the negated graph with the degrees on the
      diagonal\<close>
  "csg_laplacian A =
     (let m = fill_diagonal A (\<lambda>i. 0);
          w = (\<lambda>j. \<Sum>i\<leftarrow>[0..<length m]. m ! i ! j)
      in fill_diagonal (scale m (- 1)) w)"

subsection \<open>\<open>effective_resistance\<close>\<close>

fun resistance_rows :: "numerics \<Rightarrow> matrix \<Rightarrow> matrix \<Rightarrow> nat list \<Rightarrow> matrix \<Rightarrow> matrix" where
  \<comment> \<open>the loop \<open>for j in range(len(A))\<close>, with the array \<open>R\<close>\<close>
  "resistance_rows nm L I [] R = R"
| "resistance_rows nm L I (j # js) R =
     (let Lcopy = L[j := I ! j];
          Lj = drazin_inverse nm Lcopy default_tol
      in resistance_rows nm L I js (R[j := diag Lj]))"

definition effective_resistance :: "numerics \<Rightarrow> matrix \<Rightarrow> matrix" where
  "effective_resistance nm A =
     (let L = csg_laplacian A;
          R = zeros (fst (shape A)) (snd (shape A));
          n = length A;
          I = identity n;
          R = resistance_rows nm L I [0..<length A] R
      in mat_sub R (identity n))"

subsection \<open>The class \<open>LinkPredictor\<close>\<close>

record LinkPredictor =
  self_R :: matrix
  self_names_list :: "(string \<times> string) list"
  self_index_dict :: "(string \<times> nat) list"
  self_name_dict :: "(nat \<times> string) list"
  self_A :: matrix

text \<open>
  The constructor reads the file into the list \<open>ff\<close> of its lines, each split at the comma,
  and drops the last (empty) line. The model starts from \<open>ff\<close>, a list of pairs of names.
\<close>

definition register_name ::
  "string \<Rightarrow> (string \<times> nat) list \<times> (nat \<times> string) list \<times> nat
     \<Rightarrow> (string \<times> nat) list \<times> (nat \<times> string) list \<times> nat" where
  "register_name name st =
     (case st of (index_dict, name_dict, i) \<Rightarrow>
        if name \<notin> keys index_dict
        then (AList.update name i index_dict, AList.update i name name_dict, i + 1)
        else (index_dict, name_dict, i))"

fun build_dicts ::
  "(string \<times> string) list \<Rightarrow> (string \<times> nat) list \<times> (nat \<times> string) list \<times> nat
     \<Rightarrow> (string \<times> nat) list \<times> (nat \<times> string) list \<times> nat" where
  "build_dicts [] st = st"
| "build_dicts (pair # ff) st = build_dicts ff (register_name (snd pair) (register_name (fst pair) st))"

definition add_item :: "matrix \<Rightarrow> nat \<Rightarrow> nat \<Rightarrow> real \<Rightarrow> error + matrix" where
  \<comment> \<open>\<open>X[i,j] += v\<close>\<close>
  "add_item X i j v =
     (if i < length X \<and> j < length (X ! i) then Inr (X[i := (X ! i)[j := X ! i ! j + v]])
      else Inl IndexError)"

fun connect_nodes :: "(string \<times> nat) list \<Rightarrow> (string \<times> string) list \<Rightarrow> matrix \<Rightarrow> error + matrix" where
  "connect_nodes index_dict [] A = Inr A"
| "connect_nodes index_dict (pair # ff) A =
     (case dict_get index_dict (fst pair) of
        Inl e \<Rightarrow> Inl e
      | Inr ind1 \<Rightarrow>
          (case dict_get index_dict (snd pair) of
             Inl e \<Rightarrow> Inl e
           | Inr ind2 \<Rightarrow>
               (case add_item A ind1 ind2 1 of
                  Inl e \<Rightarrow> Inl e
                | Inr A1 \<Rightarrow>
                    (case add_item A1 ind2 ind1 1 of
                       Inl e \<Rightarrow> Inl e
                     | Inr A2 \<Rightarrow> connect_nodes index_dict ff A2))))"

definition LinkPredictor_init :: "numerics \<Rightarrow> (string \<times> string) list \<Rightarrow> error + LinkPredictor" where
  "LinkPredictor_init nm ff =
     (case build_dicts ff ([], [], 0) of (index_dict, name_dict, i) \<Rightarrow>
        (case connect_nodes index_dict ff (zeros (length index_dict) (length index_dict)) of
           Inl e \<Rightarrow> Inl e
         | Inr A \<Rightarrow>
             Inr \<lparr>self_R = effective_resistance nm A, self_names_list = ff,
                  self_index_dict = index_dict, self_name_dict = name_dict, self_A = A\<rparr>))"

datatype prediction = Name_pair string string | Friend string

definition R_mute :: "LinkPredictor \<Rightarrow> matrix" where
  "R_mute self =
     mat_add (scale (mat_add (self_A self) (identity (fst (shape (self_A self))))) 999) (self_R self)"

definition get_row :: "matrix \<Rightarrow> nat \<Rightarrow> error + real list" where
  "get_row X i = (if i < length X then Inr (X ! i) else Inl IndexError)"

definition predict_link :: "LinkPredictor \<Rightarrow> string option \<Rightarrow> (error + prediction) \<times> LinkPredictor" where
  \<comment> \<open>the result or the exception raised, and the object afterwards (no field is assigned)\<close>
  "predict_link self node =
     (case node of
        None \<Rightarrow>
          (case argmin (concat (R_mute self)) of
             Inl e \<Rightarrow> (Inl e, self)
           | Inr k \<Rightarrow>
               (let index_pair = unravel_index k (shape (R_mute self)) in
                case dict_get (self_name_dict self) (fst index_pair) of
                  Inl e \<Rightarrow> (Inl e, self)
                | Inr name0 \<Rightarrow>
                    (case dict_get (self_name_dict self) (snd index_pair) of
                       Inl e \<Rightarrow> (Inl e, self)
                     | Inr name1 \<Rightarrow> (Inr (Name_pair name0 name1), self))))
      | Some nd \<Rightarrow>
          if nd \<notin> keys (self_index_dict self) then (Inl (ValueError ''Node not in graph''), self)
          else
            (case dict_get (self_index_dict self) nd of
               Inl e \<Rightarrow> (Inl e, self)
             | Inr index1 \<Rightarrow>
                 (case get_row (R_mute self) index1 of
                    Inl e \<Rightarrow> (Inl e, self)
                  | Inr row \<Rightarrow>
                      (case argmin row of
                         Inl e \<Rightarrow> (Inl e, self)
                       | Inr index2 \<Rightarrow>
                           (case dict_get (self_name_dict self) index2 of
                              Inl e \<Rightarrow> (Inl e, self)
                            | Inr friend \<Rightarrow> (Inr (Friend friend), self))))))"

definition add_link :: "LinkPredictor \<Rightarrow> string \<Rightarrow> string \<Rightarrow> (error + unit) \<times> LinkPredictor" where
  \<comment> \<open>the exception raised, if any, and the object afterwards\<close>
  "add_link self node1 node2 =
     (if node1 \<notin> keys (self_index_dict self) \<or> node2 \<notin> keys (self_index_dict self)
      then (Inl (ValueError ''nodes need to be in the graph''), self)
      else
        (case dict_get (self_index_dict self) node1 of
           Inl e \<Rightarrow> (Inl e, self)
         | Inr index1 \<Rightarrow>
             (case dict_get (self_index_dict self) node2 of
                Inl e \<Rightarrow> (Inl e, self)
              | Inr index2 \<Rightarrow>
                  (case set_item (self_A self) index1 index2 1 of
                     Inl e \<Rightarrow> (Inl e, self)
                   | Inr A1 \<Rightarrow>
                       (case set_item A1 index2 index1 1 of
                          Inl e \<Rightarrow> (Inl e, self\<lparr>self_A := A1\<rparr>)
                        | Inr A2 \<Rightarrow> (Inr (), self\<lparr>self_A := A2\<rparr>))))))"

text \<open>
  The invariant the constructor establishes: the dictionaries number the names
  \<open>0, 1, \<dots>, n - 1\<close> in order of first occurrence, \<open>name_dict\<close> is the inverse of
  \<open>index_dict\<close>, and both arrays are \<open>n \<times> n\<close>.
\<close>

definition well_formed :: "LinkPredictor \<Rightarrow> bool" where
  "well_formed self =
     (let n = length (self_index_dict self)
      in square n (self_A self) \<and> square n (self_R self)
         \<and> map snd (self_index_dict self) = [0..<n]
         \<and> distinct (map fst (self_index_dict self))
         \<and> self_name_dict self = map (\<lambda>p. (snd p, fst p)) (self_index_dict self))"

subsection \<open>Exact routines for small and triangular matrices\<close>

text \<open>
  Concrete values of the record \<open>numerics\<close>, for evaluating the functions above on concrete
  inputs. The determinant (cofactor expansion), the rank (Gaussian elimination), the product
  and the inverse (adjugate over determinant; SciPy raises LinAlgError on a singular matrix,
  here the entries are divided by zero) are exact. A Schur form \<open>A = Q T Q\<^sup>T\<close> is given
  where it is rational: an upper triangular matrix is its own Schur form with \<open>Q\<close> the
  identity, and a lower triangular one becomes upper triangular under the permutation \<open>J\<close>
  that reverses the order of the basis. The triple is a sorted Schur form when the selected
  eigenvalues lead the diagonal of \<open>T\<close>; outside these cases \<open>tri_schur\<close> is not a
  Schur form, and no statement below evaluates it there.
\<close>

fun cofactor_det :: "nat \<Rightarrow> matrix \<Rightarrow> real" where
  "cofactor_det 0 X = 1"
| "cofactor_det (Suc n) X =
     (\<Sum>j\<leftarrow>[0..<Suc n]. (- 1) ^ j * hd X ! j
         * cofactor_det n (map (\<lambda>r. take j r @ drop (Suc j) r) (tl X)))"

definition exact_det :: "matrix \<Rightarrow> real" where
  "exact_det X = cofactor_det (length X) X"

definition eliminate :: "real list \<Rightarrow> real list \<Rightarrow> real list" where
  "eliminate p r = map2 (\<lambda>x y. y - hd r / hd p * x) (tl p) (tl r)"

fun rank_elim :: "nat \<Rightarrow> matrix \<Rightarrow> nat" where
  "rank_elim 0 X = 0"
| "rank_elim (Suc c) X =
     (case filter (\<lambda>r. hd r \<noteq> 0) X of
        [] \<Rightarrow> rank_elim c (map tl X)
      | p # _ \<Rightarrow> Suc (rank_elim c (map (eliminate p) (remove1 p X))))"

definition exact_rank :: "matrix \<Rightarrow> nat" where
  "exact_rank X = rank_elim (snd (shape X)) X"

definition minor :: "matrix \<Rightarrow> nat \<Rightarrow> nat \<Rightarrow> matrix" where
  "minor X i j = map (\<lambda>r. take j r @ drop (Suc j) r) (take i X @ drop (Suc i) X)"

definition exact_inv :: "matrix \<Rightarrow> matrix" where
  "exact_inv X =
     (let n = length X; d = exact_det X
      in map (\<lambda>i. map (\<lambda>j. (- 1) ^ (i + j) * exact_det (minor X j i) / d) [0..<n]) [0..<n])"

definition upper_triangular :: "matrix \<Rightarrow> bool" where
  "upper_triangular X = list_all (\<lambda>i. list_all (\<lambda>j. X ! i ! j = 0) [0..<i]) [0..<length X]"

definition reversal :: "nat \<Rightarrow> matrix" where
  "reversal n = map (\<lambda>i. map (\<lambda>j. if i + j + 1 = n then 1 else 0) [0..<n]) [0..<n]"

definition eigenvalues :: "matrix \<Rightarrow> complex list" where
  \<comment> \<open>of a triangular matrix: its diagonal\<close>
  "eigenvalues T = map complex_of_real (diag T)"

definition selected_lead :: "(complex \<Rightarrow> bool) \<Rightarrow> matrix \<Rightarrow> bool" where
  "selected_lead sel T =
     (filter sel (eigenvalues T) @ filter (\<lambda>x. \<not> sel x) (eigenvalues T) = eigenvalues T)"

definition tri_schur :: "matrix \<Rightarrow> (complex \<Rightarrow> bool) \<Rightarrow> matrix \<times> matrix \<times> nat" where
  "tri_schur A sel =
     (let n = length A; J = reversal n; B = matmul (matmul J A) J
      in if upper_triangular A \<and> selected_lead sel A
         then (A, identity n, length (filter sel (eigenvalues A)))
         else if upper_triangular B \<and> selected_lead sel B
         then (B, J, length (filter sel (eigenvalues B)))
         else (A, identity n, 0))"

definition exact_numerics :: numerics where
  "exact_numerics =
     \<lparr>la_det = exact_det, np_matrix_rank = exact_rank, np_dot = matmul,
      la_schur = tri_schur, la_inv = exact_inv\<rparr>"

subsection \<open>Example objects\<close>

text \<open>
  The object for the path \<open>a - b - c\<close>: the file holds the lines \<open>a,b\<close> and \<open>b,c\<close>, and
  the effective resistance between two nodes of a path of unit edges is their distance.
\<close>

definition path3 :: LinkPredictor where
  "path3 =
     \<lparr>self_R = [[0, 1, 2], [1, 0, 1], [2, 1, 0]],
      self_names_list = [(''a'', ''b''), (''b'', ''c'')],
      self_index_dict = [(''a'', 0), (''b'', 1), (''c'', 2)],
      self_name_dict = [(0, ''a''), (1, ''b''), (2, ''c'')],
      self_A = [[0, 1, 0], [1, 0, 1], [0, 1, 0]]\<rparr>"

text \<open>
  The objects the constructor builds from an empty file, from the single line \<open>a,b\<close>, and
  from the line \<open>a,b\<close> twice (with the exact routines above).
\<close>

definition nobody :: LinkPredictor where
  "nobody = \<lparr>self_R = [], self_names_list = [], self_index_dict = [], self_name_dict = [],
     self_A = []\<rparr>"


definition close_friends :: LinkPredictor where
  "close_friends =
     \<lparr>self_R = [[0, 1 / 2], [1 / 2, 0]],
      self_names_list = [(''a'', ''b''), (''a'', ''b'')],
      self_index_dict = [(''a'', 0), (''b'', 1)],
      self_name_dict = [(0, ''a''), (1, ''b'')],
      self_A = [[0, 2], [2, 0]]\<rparr>"

text \<open>The invariant of the constructor's first loop, on its three variables.\<close>

definition numbered :: "(string \<times> nat) list \<times> (nat \<times> string) list \<times> nat \<Rightarrow> bool" where
  "numbered st =
     (case st of (index_dict, name_dict, i) \<Rightarrow>
        i = length index_dict \<and> map snd index_dict = [0..<i] \<and> distinct (map fst index_dict)
        \<and> name_dict = map (\<lambda>p. (snd p, fst p)) index_dict)"

subsection \<open>The Laplacian in the words of the specification\<close>

text \<open>
  \<open>L = diag(row sums of A) - A\<close>, to compare with the loops of \<open>laplacian\<close> and with
  \<open>csg_laplacian\<close>.
\<close>

definition row_sums :: "matrix \<Rightarrow> real list" where
  "row_sums A = map sum_list A"

definition diag_matrix :: "real list \<Rightarrow> matrix" where
  "diag_matrix d = map (\<lambda>i. map (\<lambda>j. if i = j then d ! i else 0) [0..<length d]) [0..<length d]"

definition laplacian_spec :: "matrix \<Rightarrow> matrix" where
  "laplacian_spec A = mat_sub (diag_matrix (row_sums A)) A"

definition symmetric :: "matrix \<Rightarrow> bool" where
  "symmetric A = list_all (\<lambda>i. list_all (\<lambda>j. A ! i ! j = A ! j ! i) [0..<length A]) [0..<length A]"

subsection \<open>Products that underflow\<close>

text \<open>
  A binary64 product whose magnitude is below half the least subnormal number \<open>2\<^sup>-\<^sup>1\<^sup>0\<^sup>7\<^sup>4\<close>
  is rounded to zero. \<open>underflow_numerics\<close> is \<open>exact_numerics\<close> with this one effect of
  floating point on the matrix product (rounding of larger results is left out). On a
  \<open>1 \<times> 1\<close> matrix NumPy's rank is 1 for a non-zero entry and 0 for zero, as the exact rank.
\<close>

definition flush :: "real \<Rightarrow> real" where
  "flush x = (if \<bar>x\<bar> < 1 / 2 ^ 1075 then 0 else x)"

definition underflow_dot :: "matrix \<Rightarrow> matrix \<Rightarrow> matrix" where
  "underflow_dot X Y = map (map flush) (matmul X Y)"

definition underflow_numerics :: numerics where
  "underflow_numerics = exact_numerics\<lparr>np_dot := underflow_dot\<rparr>"

subsection \<open>The contract of the Schur forms in \<open>drazin_inverse\<close>\<close>





subsection \<open>Two pairs that are not connected\<close>

text \<open>
  The adjacency matrix of the file with the lines \<open>a,b\<close>, \<open>c,d\<close> and \<open>c,d\<close>: two
  components, one edge of weight 1 and one of weight 2. Grounding a node leaves the Laplacian
  of the other component as a symmetric singular block, whose Schur vectors have the entries
  \<open>\<plusminus>\<surd>2/2\<close>. \<open>two_pairs_schur\<close> gives a sorted Schur form for each of the four grounded
  Laplacians of this graph (and is \<open>tri_schur\<close> elsewhere); \<open>schur_form\<close> is the property
  that makes a triple a sorted real Schur form with real eigenvalues, and it is proved of each
  entry below. \<open>orth_inv\<close> inverts an orthogonal matrix by transposing it and any other
  matrix as \<open>exact_inv\<close> does.
\<close>

definition h2 :: real where
  "h2 = sqrt 2 / 2"

definition transposed :: "matrix \<Rightarrow> matrix" where
  "transposed X = map (\<lambda>j. map (\<lambda>i. X ! i ! j) [0..<length X]) [0..<snd (shape X)]"


definition two_pairs :: matrix where
  "two_pairs = [[0, 1, 0, 0], [1, 0, 0, 0], [0, 0, 0, 2], [0, 0, 2, 0]]"

definition grounded :: "nat \<Rightarrow> matrix" where
  "grounded j = (csg_laplacian two_pairs)[j := identity 4 ! j]"

definition T_large :: "nat \<Rightarrow> matrix" where
  "T_large j =
     (if j < 2 then [[1, - 1, 0, 0], [0, 1, 0, 0], [0, 0, 4, 0], [0, 0, 0, 0]]
      else [[2, 0, 0, 0], [0, 2, - 2, 0], [0, 0, 1, 0], [0, 0, 0, 0]])"

definition T_small :: "nat \<Rightarrow> matrix" where
  "T_small j =
     (if j < 2 then [[0, 0, 0, 0], [0, 1, - 1, 0], [0, 0, 1, 0], [0, 0, 0, 4]]
      else [[0, 0, 0, 0], [0, 2, 0, 0], [0, 0, 2, - 2], [0, 0, 0, 1]])"

definition Q_large :: "nat \<Rightarrow> matrix" where
  "Q_large j =
     (if j = 0 then [[0, 1, 0, 0], [1, 0, 0, 0], [0, 0, h2, h2], [0, 0, - h2, h2]]
      else if j = 1 then [[1, 0, 0, 0], [0, 1, 0, 0], [0, 0, h2, h2], [0, 0, - h2, h2]]
      else if j = 2 then [[h2, 0, 0, h2], [- h2, 0, 0, h2], [0, 0, 1, 0], [0, 1, 0, 0]]
      else [[h2, 0, 0, h2], [- h2, 0, 0, h2], [0, 1, 0, 0], [0, 0, 1, 0]])"

definition Q_small :: "nat \<Rightarrow> matrix" where
  "Q_small j =
     (if j = 0 then [[0, 0, 1, 0], [0, 1, 0, 0], [h2, 0, 0, h2], [h2, 0, 0, - h2]]
      else if j = 1 then [[0, 1, 0, 0], [0, 0, 1, 0], [h2, 0, 0, h2], [h2, 0, 0, - h2]]
      else if j = 2 then [[h2, h2, 0, 0], [h2, - h2, 0, 0], [0, 0, 0, 1], [0, 0, 1, 0]]
      else [[h2, h2, 0, 0], [h2, - h2, 0, 0], [0, 0, 1, 0], [0, 0, 0, 1]])"

definition two_pairs_schur :: "matrix \<Rightarrow> (complex \<Rightarrow> bool) \<Rightarrow> matrix \<times> matrix \<times> nat" where
  "two_pairs_schur A sel =
     (case filter (\<lambda>j. A = grounded j) [0, 1, 2, 3] of
        [] \<Rightarrow> tri_schur A sel
      | j # _ \<Rightarrow> if sel 1 then (T_large j, Q_large j, 3) else (T_small j, Q_small j, 1))"


definition schur_form :: "matrix \<Rightarrow> (complex \<Rightarrow> bool) \<Rightarrow> matrix \<times> matrix \<times> nat \<Rightarrow> bool" where
  "schur_form A sel r =
     (case r of (T, Q, sdim) \<Rightarrow>
        matmul (transposed Q) Q = identity (length A)
        \<and> matmul (matmul Q T) (transposed Q) = A
        \<and> upper_triangular T \<and> selected_lead sel T
        \<and> sdim = length (filter sel (eigenvalues T)))"

section \<open>Arrays: minimum search and entries\<close>

lemma argmin_scan_spec:
  assumes "length pre = i" "best < i" "pre ! best = v"
    and "\<forall>k<i. v \<le> pre ! k" and "\<forall>k<best. v < pre ! k"
  shows "argmin_scan best v i xs < length (pre @ xs)
     \<and> (\<forall>k<length (pre @ xs). (pre @ xs) ! argmin_scan best v i xs \<le> (pre @ xs) ! k)
     \<and> (\<forall>k<argmin_scan best v i xs. (pre @ xs) ! argmin_scan best v i xs < (pre @ xs) ! k)"
  using assms
proof (induction xs arbitrary: best v i pre)
  case Nil
  then show ?case by auto
next
  case (Cons x xs)
  let ?pre = "pre @ [x]"
  show ?case
  proof (cases "x < v")
    case True
    have a: "length ?pre = Suc i" using Cons.prems by simp
    have b: "?pre ! i = x" using Cons.prems by (simp add: nth_append)
    have c: "\<forall>k<Suc i. x \<le> ?pre ! k"
      using Cons.prems True by (fastforce simp: nth_append less_Suc_eq)
    have d: "\<forall>k<i. x < ?pre ! k"
      using Cons.prems True by (auto simp: nth_append)
    from Cons.IH[of ?pre "Suc i" i x, OF a _ b c d] True show ?thesis by simp
  next
    case False
    have a: "length ?pre = Suc i" using Cons.prems by simp
    have b: "?pre ! best = v" using Cons.prems by (simp add: nth_append)
    have c: "\<forall>k<Suc i. v \<le> ?pre ! k"
      using Cons.prems False by (auto simp: nth_append less_Suc_eq)
    have d: "\<forall>k<best. v < ?pre ! k"
      using Cons.prems by (auto simp: nth_append)
    from Cons.IH[of ?pre "Suc i" best v, OF a _ b c d] Cons.prems False show ?thesis by simp
  qed
qed

lemma argmin_first_min:
  assumes "xs \<noteq> []"
  shows "\<exists>r. argmin xs = Inr r \<and> r < length xs \<and> (\<forall>k<length xs. xs ! r \<le> xs ! k)
           \<and> (\<forall>k<r. xs ! r < xs ! k)"
proof -
  from assms obtain x ys where xs: "xs = x # ys" by (cases xs) auto
  have "argmin_scan 0 x 1 ys < length ([x] @ ys)
     \<and> (\<forall>k<length ([x] @ ys). ([x] @ ys) ! argmin_scan 0 x 1 ys \<le> ([x] @ ys) ! k)
     \<and> (\<forall>k<argmin_scan 0 x 1 ys. ([x] @ ys) ! argmin_scan 0 x 1 ys < ([x] @ ys) ! k)"
    by (rule argmin_scan_spec) auto
  then show ?thesis by (simp add: xs argmin_def)
qed

lemma concat_nth_square:
  assumes "list_all (\<lambda>r. length r = c) M" "k < length M * c"
  shows "concat M ! k = M ! (k div c) ! (k mod c)"
  using assms
proof (induction M arbitrary: k)
  case Nil
  then show ?case by simp
next
  case (Cons r M)
  then have c: "0 < c" by (cases c) auto
  show ?case
  proof (cases "k < c")
    case True
    then show ?thesis using Cons.prems by (simp add: nth_append)
  next
    case False
    then have "k - c < length M * c" using Cons.prems by auto
    then have "concat M ! (k - c) = M ! ((k - c) div c) ! ((k - c) mod c)"
      using Cons by simp
    moreover have "k div c = Suc ((k - c) div c)" using False c
      by (simp add: le_div_geq)
    moreover have "k mod c = (k - c) mod c" using False
      by (simp add: le_mod_geq)
    ultimately show ?thesis using False Cons.prems by (simp add: nth_append)
  qed
qed

lemma length_concat_square:
  "list_all (\<lambda>r. length r = c) M \<Longrightarrow> length (concat M) = length M * c"
  by (induction M) auto

lemma square_nth: "square n X \<Longrightarrow> p < n \<Longrightarrow> length (X ! p) = n"
  by (simp add: square_def list_all_length)

lemma square_length: "square n X \<Longrightarrow> length X = n"
  by (simp add: square_def)


lemma square_shape: "square n X \<Longrightarrow> shape X = (n, n)"
  by (cases X) (auto simp: square_def shape_def)

lemma identity_square: "square n (identity n)"
  by (simp add: square_def identity_def list_all_length)

lemma identity_nth: "p < n \<Longrightarrow> q < n \<Longrightarrow> identity n ! p ! q = (if p = q then 1 else 0)"
  by (simp add: identity_def)

lemma mat_add_square: "square n X \<Longrightarrow> square n Y \<Longrightarrow> square n (mat_add X Y)"
  by (simp add: square_def mat_add_def list_all_length)

lemma mat_add_nth:
  "square n X \<Longrightarrow> square n Y \<Longrightarrow> p < n \<Longrightarrow> q < n \<Longrightarrow> mat_add X Y ! p ! q = X ! p ! q + Y ! p ! q"
  by (simp add: square_def mat_add_def list_all_length)

lemma scale_square: "square n X \<Longrightarrow> square n (scale X c)"
  by (simp add: square_def scale_def list_all_length)

lemma scale_nth: "square n X \<Longrightarrow> p < n \<Longrightarrow> q < n \<Longrightarrow> scale X c ! p ! q = X ! p ! q * c"
  by (simp add: square_def scale_def list_all_length)

lemma R_mute_square:
  assumes "square n (self_A self)" "square n (self_R self)"
  shows "square n (R_mute self)"
  using assms
  by (simp add: R_mute_def square_shape mat_add_square scale_square identity_square)

lemma R_mute_nth:
  assumes "square n (self_A self)" "square n (self_R self)" "p < n" "q < n"
  shows "R_mute self ! p ! q
    = (self_A self ! p ! q + (if p = q then 1 else 0)) * 999 + self_R self ! p ! q"
proof -
  let ?S = "mat_add (self_A self) (identity n)"
  have s: "square n ?S" using assms(1) by (simp add: mat_add_square identity_square)
  have "R_mute self ! p ! q = scale ?S 999 ! p ! q + self_R self ! p ! q"
    using mat_add_nth[OF scale_square[OF s] assms(2) assms(3) assms(4)] assms(1)
    by (simp add: R_mute_def square_shape)
  also have "scale ?S 999 ! p ! q = ?S ! p ! q * 999"
    using scale_nth[OF s assms(3) assms(4)] .
  also have "?S ! p ! q = self_A self ! p ! q + identity n ! p ! q"
    using mat_add_nth[OF assms(1) identity_square assms(3) assms(4)] .
  finally show ?thesis using assms(3,4) by (simp add: identity_nth)
qed

lemma wf_entry:
  assumes "well_formed self" "i < length (self_index_dict self)"
  shows "self_index_dict self ! i = (fst (self_index_dict self ! i), i)"
proof -
  have "map snd (self_index_dict self) ! i = [0..<length (self_index_dict self)] ! i"
    using assms by (simp add: well_formed_def Let_def)
  then have "snd (self_index_dict self ! i) = i" using assms by simp
  then show ?thesis by (metis prod.collapse)
qed

lemma wf_index_lookup:
  assumes "well_formed self" "name \<in> keys (self_index_dict self)"
  shows "\<exists>i<length (self_index_dict self).
           dict_get (self_index_dict self) name = Inr i \<and> self_index_dict self ! i = (name, i)"
proof -
  from assms(2) obtain i where i: "i < length (self_index_dict self)"
    and nm: "fst (self_index_dict self ! i) = name"
    by (auto simp: keys_def in_set_conv_nth)
  have e: "self_index_dict self ! i = (name, i)" using wf_entry[OF assms(1) i] nm by simp
  then have "(name, i) \<in> set (self_index_dict self)" using i by (metis nth_mem)
  moreover have "distinct (map fst (self_index_dict self))"
    using assms(1) by (simp add: well_formed_def Let_def)
  ultimately have "map_of (self_index_dict self) name = Some i" by simp
  then show ?thesis using i e by (auto simp: dict_get_def)
qed

lemma wf_name_lookup:
  assumes "well_formed self" "i < length (self_index_dict self)"
  shows "dict_get (self_name_dict self) i = Inr (fst (self_index_dict self ! i))"
proof -
  let ?d = "self_index_dict self"
  have nd: "self_name_dict self = map (\<lambda>p. (snd p, fst p)) ?d"
    and sn: "map snd ?d = [0..<length ?d]"
    using assms(1) by (simp_all add: well_formed_def Let_def)
  have "map fst (self_name_dict self) = [0..<length ?d]"
    using sn by (simp add: nd comp_def)
  then have d: "distinct (map fst (self_name_dict self))" by simp
  have "(i, fst (?d ! i)) \<in> set (self_name_dict self)"
  proof -
    have "?d ! i \<in> set ?d" using assms(2) by simp
    then have "(snd (?d ! i), fst (?d ! i)) \<in> set (self_name_dict self)"
      unfolding nd by (simp add: image_iff) blast
    then show ?thesis using wf_entry[OF assms] by (metis snd_conv)
  qed
  then have "map_of (self_name_dict self) i = Some (fst (?d ! i))" using d by simp
  then show ?thesis by (simp add: dict_get_def)
qed


lemma wf_square:
  assumes "well_formed self"
  shows "square (length (self_index_dict self)) (self_A self)"
    and "square (length (self_index_dict self)) (self_R self)"
  using assms by (simp_all add: well_formed_def Let_def)

section \<open>The class \<open>LinkPredictor\<close>: what the methods do\<close>

lemma predict_link_global:
  assumes wf: "well_formed self" and ne: "self_index_dict self \<noteq> []"
  shows "\<exists>i j. i < length (self_index_dict self) \<and> j < length (self_index_dict self)
     \<and> predict_link self None
         = (Inr (Name_pair (fst (self_index_dict self ! i)) (fst (self_index_dict self ! j))), self)
     \<and> (\<forall>p<length (self_index_dict self). \<forall>q<length (self_index_dict self).
           R_mute self ! i ! j \<le> R_mute self ! p ! q)
     \<and> (\<forall>p<length (self_index_dict self). \<forall>q<length (self_index_dict self).
           p * length (self_index_dict self) + q < i * length (self_index_dict self) + j
             \<longrightarrow> R_mute self ! i ! j < R_mute self ! p ! q)"
proof -
  let ?n = "length (self_index_dict self)"
  let ?M = "R_mute self"
  have n: "0 < ?n" using ne by simp
  have sq: "square ?n ?M" using wf by (simp add: R_mute_square wf_square)
  have rows: "list_all (\<lambda>r. length r = ?n) ?M" and len: "length ?M = ?n"
    using sq by (simp_all add: square_def)
  have lc: "length (concat ?M) = ?n * ?n" using length_concat_square[OF rows] len by simp
  then have "0 < length (concat ?M)" using n by simp
  then have "concat ?M \<noteq> []" by simp
  from argmin_first_min[OF this] obtain r where r: "argmin (concat ?M) = Inr r"
    and rlt: "r < ?n * ?n"
    and rmin: "\<forall>k<?n * ?n. concat ?M ! r \<le> concat ?M ! k"
    and rfirst: "\<forall>k<r. concat ?M ! r < concat ?M ! k"
    using lc by auto
  have at: "concat ?M ! k = ?M ! (k div ?n) ! (k mod ?n)" if "k < ?n * ?n" for k
    using concat_nth_square[OF rows, of k] that len by simp
  let ?i = "r div ?n" and ?j = "r mod ?n"
  have i: "?i < ?n" using rlt by (simp add: less_mult_imp_div_less)
  have j: "?j < ?n" using n by simp
  have flat: "p * ?n + q < ?n * ?n" if "p < ?n" "q < ?n" for p q
  proof -
    have "p * ?n + q < p * ?n + ?n" using that by simp
    also have "\<dots> = Suc p * ?n" by simp
    also have "\<dots> \<le> ?n * ?n" using that(1) by (metis Suc_leI mult_le_mono1)
    finally show ?thesis .
  qed
  have ent: "concat ?M ! (p * ?n + q) = ?M ! p ! q" if "p < ?n" "q < ?n" for p q
    using at[OF flat[OF that]] that n by simp
  have rr: "concat ?M ! r = ?M ! ?i ! ?j" using at[OF rlt] .
  have m1: "\<forall>p<?n. \<forall>q<?n. ?M ! ?i ! ?j \<le> ?M ! p ! q"
    using rmin flat ent rr by metis
  have m2: "\<forall>p<?n. \<forall>q<?n. p * ?n + q < ?i * ?n + ?j \<longrightarrow> ?M ! ?i ! ?j < ?M ! p ! q"
  proof (intro allI impI)
    fix p q assume "p < ?n" "q < ?n" "p * ?n + q < ?i * ?n + ?j"
    then have "p * ?n + q < r" by simp
    then show "?M ! ?i ! ?j < ?M ! p ! q"
      using rfirst ent[OF \<open>p < ?n\<close> \<open>q < ?n\<close>] rr by metis
  qed
  have sh: "shape ?M = (?n, ?n)" using sq by (rule square_shape)
  have "predict_link self None
      = (Inr (Name_pair (fst (self_index_dict self ! ?i)) (fst (self_index_dict self ! ?j))), self)"
    using r wf_name_lookup[OF wf i] wf_name_lookup[OF wf j]
    by (simp add: predict_link_def unravel_index_def sh)
  then show ?thesis using i j m1 m2 by blast
qed

lemma predict_link_node:
  assumes wf: "well_formed self" and k: "nd \<in> keys (self_index_dict self)"
  shows "\<exists>i j. i < length (self_index_dict self) \<and> j < length (self_index_dict self)
     \<and> self_index_dict self ! i = (nd, i)
     \<and> predict_link self (Some nd) = (Inr (Friend (fst (self_index_dict self ! j))), self)
     \<and> (\<forall>q<length (self_index_dict self). R_mute self ! i ! j \<le> R_mute self ! i ! q)
     \<and> (\<forall>q<j. R_mute self ! i ! j < R_mute self ! i ! q)"
proof -
  let ?n = "length (self_index_dict self)"
  let ?M = "R_mute self"
  from wf_index_lookup[OF wf k] obtain i where i: "i < ?n"
    and gi: "dict_get (self_index_dict self) nd = Inr i"
    and ei: "self_index_dict self ! i = (nd, i)" by blast
  have sq: "square ?n ?M" using wf by (simp add: R_mute_square wf_square)
  have len: "length ?M = ?n" using sq by (simp add: square_def)
  have row: "length (?M ! i) = ?n" using square_nth[OF sq i] .
  then have "?M ! i \<noteq> []" using i by auto
  from argmin_first_min[OF this] obtain j where j: "argmin (?M ! i) = Inr j" and jlt: "j < ?n"
    and jmin: "\<forall>q<?n. ?M ! i ! j \<le> ?M ! i ! q"
    and jfirst: "\<forall>q<j. ?M ! i ! j < ?M ! i ! q"
    using row by auto
  have "predict_link self (Some nd) = (Inr (Friend (fst (self_index_dict self ! j))), self)"
    using k gi j i len wf_name_lookup[OF wf jlt]
    by (simp add: predict_link_def get_row_def)
  then show ?thesis using i jlt ei jmin jfirst by blast
qed

lemma set_item_nth:
  assumes "set_item X i j v = Inr X'" "p < length X" "q < length (X ! p)"
  shows "X' ! p ! q = (if p = i \<and> q = j then v else X ! p ! q)"
  using assms by (auto simp: set_item_def nth_list_update split: if_splits)

lemma set_item_length:
  assumes "set_item X i j v = Inr X'"
  shows "length X' = length X" and "p < length X \<Longrightarrow> length (X' ! p) = length (X ! p)"
  using assms by (auto simp: set_item_def nth_list_update split: if_splits)

lemma set_item_square:
  "square n X \<Longrightarrow> i < n \<Longrightarrow> j < n \<Longrightarrow> \<exists>X'. set_item X i j v = Inr X' \<and> square n X'"
  by (auto simp: set_item_def square_def list_all_length nth_list_update)

lemma ite_pair:
  "(if p = j \<and> q = i then (1::real) else if p = i \<and> q = j then 1 else x)
    = (if (p = i \<and> q = j) \<or> (p = (j::nat) \<and> q = (i::nat)) then 1 else x)"
  by (cases "p = j \<and> q = i") (simp_all only: if_True if_False simp_thms)

lemma add_link_present:
  assumes wf: "well_formed self" and k1: "node1 \<in> keys (self_index_dict self)"
    and k2: "node2 \<in> keys (self_index_dict self)"
  shows "\<exists>i j A'. i < length (self_index_dict self) \<and> j < length (self_index_dict self)
     \<and> dict_get (self_index_dict self) node1 = Inr i \<and> dict_get (self_index_dict self) node2 = Inr j
     \<and> add_link self node1 node2 = (Inr (), self\<lparr>self_A := A'\<rparr>)
     \<and> square (length (self_index_dict self)) A'
     \<and> (\<forall>p<length (self_index_dict self). \<forall>q<length (self_index_dict self).
           A' ! p ! q = (if (p = i \<and> q = j) \<or> (p = j \<and> q = i) then 1 else self_A self ! p ! q))"
proof -
  let ?n = "length (self_index_dict self)"
  from wf_index_lookup[OF wf k1] obtain i where i: "i < ?n"
    and gi: "dict_get (self_index_dict self) node1 = Inr i" by blast
  from wf_index_lookup[OF wf k2] obtain j where j: "j < ?n"
    and gj: "dict_get (self_index_dict self) node2 = Inr j" by blast
  have sq: "square ?n (self_A self)" using wf by (rule wf_square)
  from set_item_square[OF sq i j] obtain A1 where a1: "set_item (self_A self) i j 1 = Inr A1"
    and s1: "square ?n A1" by blast
  from set_item_square[OF s1 j i] obtain A2 where a2: "set_item A1 j i 1 = Inr A2"
    and s2: "square ?n A2" by blast
  have run: "add_link self node1 node2 = (Inr (), self\<lparr>self_A := A2\<rparr>)"
    using k1 k2 gi gj a1 a2 by (simp add: add_link_def)
  have ent: "A2 ! p ! q = (if (p = i \<and> q = j) \<or> (p = j \<and> q = i) then 1 else self_A self ! p ! q)"
    if "p < ?n" "q < ?n" for p q
  proof -
    have l0: "p < length (self_A self)" "q < length (self_A self ! p)"
      using that sq by (simp_all add: square_length square_nth)
    have l1: "p < length A1" "q < length (A1 ! p)"
      using that s1 by (simp_all add: square_length square_nth)
    have e1: "A1 ! p ! q = (if p = i \<and> q = j then 1 else self_A self ! p ! q)"
      using set_item_nth[OF a1 l0] .
    have e2: "A2 ! p ! q = (if p = j \<and> q = i then 1 else A1 ! p ! q)"
      using set_item_nth[OF a2 l1] .
    show ?thesis unfolding e2 e1 by (rule ite_pair)
  qed
  show ?thesis
    apply (rule exI[of _ i], rule exI[of _ j], rule exI[of _ A2])
    using i j gi gj run s2 ent by simp
qed

lemma upt3: "[0..<3] = [0, 1, 2]"
  by (simp add: upt_rec)

lemma path3_wf: "well_formed path3"
  by (simp add: well_formed_def path3_def square_def upt3)

lemma path3_keys: "keys (self_index_dict path3) = {''a'', ''b'', ''c''}"
  by (auto simp: keys_def path3_def)

lemma wf_lookup_nth:
  assumes "well_formed self" "i < length (self_index_dict self)"
  shows "dict_get (self_index_dict self) (fst (self_index_dict self ! i)) = Inr i"
proof -
  have "(fst (self_index_dict self ! i), i) \<in> set (self_index_dict self)"
    using wf_entry[OF assms] assms(2) by (metis nth_mem)
  moreover have "distinct (map fst (self_index_dict self))"
    using assms(1) by (simp add: well_formed_def Let_def)
  ultimately show ?thesis by (simp add: dict_get_def)
qed

text \<open>
  Claim C10. \<open>add_link\<close> is atomic on error: when one of the two names is not a key
  of \<open>index_dict\<close>, the call raises the ValueError of the membership test and the object
  afterwards is the object before, field by field (adjacency matrix, resistance matrix and both
  dictionaries): the test comes before every assignment.
\<close>

theorem add_link_atomic_on_error:
  assumes "node1 \<notin> keys (self_index_dict self) \<or> node2 \<notin> keys (self_index_dict self)"
  shows "add_link self node1 node2 = (Inl (ValueError ''nodes need to be in the graph''), self)"
  using assms by (simp add: add_link_def)

theorem add_link_atomic_on_error_witness:
  "''zoe'' \<notin> keys (self_index_dict path3)
   \<and> add_link path3 ''a'' ''zoe'' = (Inl (ValueError ''nodes need to be in the graph''), path3)"
proof -
  have h: "''a'' \<notin> keys (self_index_dict path3) \<or> ''zoe'' \<notin> keys (self_index_dict path3)"
    by (simp add: path3_keys)
  show ?thesis using add_link_atomic_on_error[OF h] by (simp add: path3_keys)
qed

text \<open>
  Claim C3. On a well-formed object and two names that are both keys of \<open>index_dict\<close>,
  with indices \<open>i\<close> and \<open>j\<close>, \<open>add_link\<close> raises nothing and returns the object
  with only the field \<open>A\<close> replaced: the entries \<open>(i, j)\<close> and \<open>(j, i)\<close> are
  exactly 1 and every other entry is the one before. The resistance matrix, the dictionaries
  and the list of names are the same: nothing is recomputed.
\<close>

theorem add_link_sets_symmetric_entries:
  assumes "well_formed self" "node1 \<in> keys (self_index_dict self)"
    "node2 \<in> keys (self_index_dict self)"
  shows "\<exists>i j A'. i < length (self_index_dict self) \<and> j < length (self_index_dict self)
     \<and> dict_get (self_index_dict self) node1 = Inr i \<and> dict_get (self_index_dict self) node2 = Inr j
     \<and> add_link self node1 node2 = (Inr (), self\<lparr>self_A := A'\<rparr>)
     \<and> square (length (self_index_dict self)) A'
     \<and> (\<forall>p<length (self_index_dict self). \<forall>q<length (self_index_dict self).
           A' ! p ! q = (if (p = i \<and> q = j) \<or> (p = j \<and> q = i) then 1 else self_A self ! p ! q))"
  using assms by (rule add_link_present)

theorem add_link_sets_symmetric_entries_witness:
  "well_formed path3 \<and> ''a'' \<in> keys (self_index_dict path3) \<and> ''c'' \<in> keys (self_index_dict path3)
   \<and> add_link path3 ''a'' ''c'' = (Inr (), path3\<lparr>self_A := [[0, 1, 1], [1, 0, 1], [1, 1, 0]]\<rparr>)
   \<and> (\<exists>i j A'. i < length (self_index_dict path3) \<and> j < length (self_index_dict path3)
     \<and> dict_get (self_index_dict path3) ''a'' = Inr i \<and> dict_get (self_index_dict path3) ''c'' = Inr j
     \<and> add_link path3 ''a'' ''c'' = (Inr (), path3\<lparr>self_A := A'\<rparr>)
     \<and> square (length (self_index_dict path3)) A'
     \<and> (\<forall>p<length (self_index_dict path3). \<forall>q<length (self_index_dict path3).
           A' ! p ! q = (if (p = i \<and> q = j) \<or> (p = j \<and> q = i) then 1 else self_A path3 ! p ! q)))"
proof -
  have h1: "well_formed path3" by (rule path3_wf)
  have h2: "''a'' \<in> keys (self_index_dict path3)" and h3: "''c'' \<in> keys (self_index_dict path3)"
    by (simp_all add: path3_keys)
  have run: "add_link path3 ''a'' ''c'' = (Inr (), path3\<lparr>self_A := [[0, 1, 1], [1, 0, 1], [1, 1, 0]]\<rparr>)"
    by (simp add: add_link_def path3_def keys_def dict_get_def set_item_def)
  show ?thesis using h1 h2 h3 run add_link_sets_symmetric_entries[OF h1 h2 h3] by blast
qed

lemma set_item_cases:
  "(\<exists>X'. set_item X i j v = Inr X') \<or> set_item X i j v = Inl IndexError"
  by (simp add: set_item_def)

lemma predict_link_state: "snd (predict_link self node) = self"
  by (simp add: predict_link_def Let_def split: option.split sum.split)

lemma add_link_A_cases:
  "self_A (snd (add_link self a b)) = self_A self
   \<or> (\<exists>i j A1. set_item (self_A self) i j 1 = Inr A1
         \<and> (self_A (snd (add_link self a b)) = A1
            \<or> (\<exists>A2. set_item A1 j i 1 = Inr A2 \<and> self_A (snd (add_link self a b)) = A2)))"
  by (auto simp: add_link_def split: sum.split)

lemma set_item_entry_one:
  assumes "set_item X i j 1 = Inr X'" "p < length X" "q < length (X ! p)"
  shows "(X' ! p ! q = X ! p ! q \<or> X' ! p ! q = 1) \<and> p < length X' \<and> q < length (X' ! p)"
  using set_item_nth[OF assms] set_item_length[OF assms(1)] assms(2,3) by auto

lemma add_link_entry:
  assumes "p < length (self_A self)" "q < length (self_A self ! p)"
  shows "self_A (snd (add_link self node1 node2)) ! p ! q = self_A self ! p ! q
       \<or> self_A (snd (add_link self node1 node2)) ! p ! q = 1"
proof -
  let ?A' = "self_A (snd (add_link self node1 node2))"
  from add_link_A_cases[of self node1 node2]
  consider "?A' = self_A self"
    | i j A1 where "set_item (self_A self) i j 1 = Inr A1" "?A' = A1"
    | i j A1 A2 where "set_item (self_A self) i j 1 = Inr A1" "set_item A1 j i 1 = Inr A2" "?A' = A2"
    by blast
  then show ?thesis
  proof cases
    case 1
    then show ?thesis by simp
  next
    case 2
    then show ?thesis using set_item_entry_one[OF 2(1) assms] by simp
  next
    case 3
    from set_item_entry_one[OF 3(1) assms]
    have a: "A1 ! p ! q = self_A self ! p ! q \<or> A1 ! p ! q = 1"
      and l: "p < length A1" "q < length (A1 ! p)" by simp_all
    from set_item_entry_one[OF 3(2) l] a 3(3) show ?thesis by auto
  qed
qed

text \<open>
  Claim C4, as amended. No method lowers an entry of the adjacency matrix that is at most 1:
  \<open>predict_link\<close> leaves the object as it is, and after \<open>add_link\<close> (whether it raises or
  not) every entry is the entry before or exactly 1. An accumulated weight above 1 at the
  linked pair is overwritten with 1.
\<close>

theorem adjacency_entry_kept_or_set_to_one:
  assumes "p < length (self_A self)" "q < length (self_A self ! p)"
  shows "snd (predict_link self node) = self
     \<and> (self_A (snd (add_link self node1 node2)) ! p ! q = self_A self ! p ! q
          \<or> self_A (snd (add_link self node1 node2)) ! p ! q = 1)
     \<and> (self_A self ! p ! q \<le> 1
          \<longrightarrow> self_A self ! p ! q \<le> self_A (snd (add_link self node1 node2)) ! p ! q)"
  using add_link_entry[OF assms, of node1 node2] by (auto simp: predict_link_state)

theorem adjacency_entry_kept_or_set_to_one_witness:
  "(0::nat) < length (self_A path3) \<and> (2::nat) < length (self_A path3 ! 0)
   \<and> snd (predict_link path3 None) = path3
   \<and> self_A path3 ! 0 ! 2 = 0
   \<and> self_A (snd (add_link path3 ''a'' ''c'')) ! 0 ! 2 = 1"
proof -
  have h1: "0 < length (self_A path3)" and h2: "2 < length (self_A path3 ! 0)"
    by (simp_all add: path3_def)
  have "self_A (snd (add_link path3 ''a'' ''c'')) ! 0 ! 2 = 1"
    by (simp add: add_link_def path3_def keys_def dict_get_def set_item_def)
  then show ?thesis
    using h1 h2 adjacency_entry_kept_or_set_to_one[OF h1 h2, of None "''a''" "''c''"]
    by (simp add: path3_def)
qed

section \<open>The exact routines on the graph of one edge\<close>

lemma upt2: "[0..<2] = [0, 1]" by (simp add: upt_rec)
lemma upt_Suc_Suc_0: "[0..<Suc (Suc 0)] = [0, Suc 0]" by (simp add: upt_rec)

lemmas tri_eval = shape_def identity_def matmul_def diag_def
  upper_triangular_def reversal_def eigenvalues_def selected_lead_def tri_schur_def
  default_tol_def Let_def upt2 upt_Suc_Suc_0

lemmas inv_eval = exact_det_def exact_inv_def minor_def Let_def upt2 upt_Suc_Suc_0

lemmas mat_eval = shape_def zeros_def identity_def mat_sub_def matmul_def diag_def hstack_def
  leading_cols_def leading_block_def set_leading_block_def Let_def upt2 upt_Suc_Suc_0

lemma schur_lower_f:
  "1 \<le> w \<Longrightarrow> tri_schur [[1, 0], [- w, w]] (\<lambda>x. default_tol < cmod x)
     = ([[w, - w], [0, 1]], [[0, 1], [1, 0]], 2)"
  by (simp add: tri_eval)

lemma schur_lower_g:
  "1 \<le> w \<Longrightarrow> tri_schur [[1, 0], [- w, w]] (\<lambda>x. cmod x \<le> default_tol)
     = ([[w, - w], [0, 1]], [[0, 1], [1, 0]], 0)"
  by (simp add: tri_eval)

lemma schur_upper_f:
  "1 \<le> w \<Longrightarrow> tri_schur [[w, - w], [0, 1]] (\<lambda>x. default_tol < cmod x)
     = ([[w, - w], [0, 1]], [[1, 0], [0, 1]], 2)"
  by (simp add: tri_eval)

lemma schur_upper_g:
  "1 \<le> w \<Longrightarrow> tri_schur [[w, - w], [0, 1]] (\<lambda>x. cmod x \<le> default_tol)
     = ([[w, - w], [0, 1]], [[1, 0], [0, 1]], 0)"
  by (simp add: tri_eval)

lemma inv_reversal2: "exact_inv [[0, 1], [1, 0]] = [[0, 1], [1, 0]]"
  by (simp add: inv_eval)

lemma inv_identity2: "exact_inv [[1, 0], [0, 1]] = [[1, 0], [0, 1]]"
  by (simp add: inv_eval)

lemma inv_upper2: "1 \<le> w \<Longrightarrow> exact_inv [[w, - w], [0, 1]] = [[1 / w, 1], [0, 1]]"
  by (simp add: inv_eval)

lemma drazin_lower:
  "1 \<le> w \<Longrightarrow> drazin_inverse exact_numerics [[1, 0], [- w, w]] default_tol = [[1, 0], [1, 1 / w]]"
  by (simp add: drazin_inverse_def exact_numerics_def schur_lower_f schur_lower_g
      inv_reversal2 inv_upper2 mat_eval)

lemma drazin_upper:
  "1 \<le> w \<Longrightarrow> drazin_inverse exact_numerics [[w, - w], [0, 1]] default_tol = [[1 / w, 1], [0, 1]]"
  by (simp add: drazin_inverse_def exact_numerics_def schur_upper_f schur_upper_g
      inv_identity2 inv_upper2 mat_eval)

lemma csg_laplacian_edge: "csg_laplacian [[0, w], [w, 0]] = [[w, - w], [- w, w]]"
  by (simp add: csg_laplacian_def fill_diagonal_def scale_def Let_def upt2 upt_Suc_Suc_0)

lemma effective_resistance_edge:
  "1 \<le> w \<Longrightarrow> effective_resistance exact_numerics [[0, w], [w, 0]] = [[0, 1 / w], [1 / w, 0]]"
  by (simp add: effective_resistance_def csg_laplacian_edge drazin_lower drazin_upper
      shape_def zeros_def identity_def diag_def mat_sub_def upt2 upt_Suc_Suc_0 Let_def)

text \<open>
  The factorisations that \<open>tri_schur\<close> returns on the two grounded Laplacians of this graph are
  Schur forms with the selected eigenvalues leading, which is what the source relies on from
  \<open>la.schur\<close> with \<open>sort\<close>.
\<close>

lemma tri_schur_edge_is_schur_form:
  assumes "1 \<le> w"
  shows "schur_form [[1, 0], [- w, w]] (\<lambda>x. default_tol < cmod x)
           (tri_schur [[1, 0], [- w, w]] (\<lambda>x. default_tol < cmod x))
     \<and> schur_form [[1, 0], [- w, w]] (\<lambda>x. cmod x \<le> default_tol)
           (tri_schur [[1, 0], [- w, w]] (\<lambda>x. cmod x \<le> default_tol))
     \<and> schur_form [[w, - w], [0, 1]] (\<lambda>x. default_tol < cmod x)
           (tri_schur [[w, - w], [0, 1]] (\<lambda>x. default_tol < cmod x))
     \<and> schur_form [[w, - w], [0, 1]] (\<lambda>x. cmod x \<le> default_tol)
           (tri_schur [[w, - w], [0, 1]] (\<lambda>x. cmod x \<le> default_tol))"
  unfolding schur_lower_f[OF assms] schur_lower_g[OF assms] schur_upper_f[OF assms]
    schur_upper_g[OF assms] schur_form_def prod.case
  using assms
  by (simp add: transposed_def matmul_def shape_def upt2 identity_def upper_triangular_def
      selected_lead_def eigenvalues_def diag_def default_tol_def upt_Suc_Suc_0)

section \<open>The constructor\<close>

lemma update_new_key: "k \<notin> fst ` set al \<Longrightarrow> AList.update k v al = al @ [(k, v)]"
  by (induction al) auto

lemma register_name_numbered:
  assumes "numbered st"
  shows "numbered (register_name name st)
    \<and> keys (fst st) \<subseteq> keys (fst (register_name name st))
    \<and> name \<in> keys (fst (register_name name st))"
proof -
  obtain idx nmd i where st: "st = (idx, nmd, i)" by (cases st) auto
  have i: "i = length idx" and sn: "map snd idx = [0..<i]" and d: "distinct (map fst idx)"
    and nd: "nmd = map (\<lambda>p. (snd p, fst p)) idx"
    using assms by (simp_all add: numbered_def st)
  show ?thesis
  proof (cases "name \<in> keys idx")
    case True
    then show ?thesis using assms by (simp add: register_name_def st)
  next
    case False
    then have a: "AList.update name i idx = idx @ [(name, i)]"
      by (simp add: update_new_key keys_def)
    have "fst ` set nmd = set (map snd idx)" by (simp add: nd image_image)
    then have "i \<notin> fst ` set nmd" using sn by simp
    then have b: "AList.update i name nmd = nmd @ [(i, name)]" by (rule update_new_key)
    have r: "register_name name st = (idx @ [(name, i)], nmd @ [(i, name)], i + 1)"
      using False a b by (simp add: register_name_def st)
    have "numbered (idx @ [(name, i)], nmd @ [(i, name)], i + 1)"
      using i sn d nd False by (simp add: numbered_def keys_def)
    then show ?thesis unfolding r by (auto simp: st keys_def)
  qed
qed

lemma build_dicts_numbered:
  assumes "numbered st"
  shows "numbered (build_dicts ff st)
    \<and> keys (fst st) \<subseteq> keys (fst (build_dicts ff st))
    \<and> (\<forall>pair\<in>set ff. fst pair \<in> keys (fst (build_dicts ff st))
          \<and> snd pair \<in> keys (fst (build_dicts ff st)))"
  using assms
proof (induction ff arbitrary: st)
  case Nil
  then show ?case by simp
next
  case (Cons pair ff)
  let ?s1 = "register_name (fst pair) st"
  let ?s2 = "register_name (snd pair) ?s1"
  from register_name_numbered[OF Cons.prems, of "fst pair"]
  have n1: "numbered ?s1" and k1: "keys (fst st) \<subseteq> keys (fst ?s1)" and m1: "fst pair \<in> keys (fst ?s1)"
    by simp_all
  from register_name_numbered[OF n1, of "snd pair"]
  have n2: "numbered ?s2" and k2: "keys (fst ?s1) \<subseteq> keys (fst ?s2)" and m2: "snd pair \<in> keys (fst ?s2)"
    by simp_all
  from Cons.IH[OF n2]
  have n3: "numbered (build_dicts ff ?s2)"
    and k3: "keys (fst ?s2) \<subseteq> keys (fst (build_dicts ff ?s2))"
    and m3: "\<forall>p\<in>set ff. fst p \<in> keys (fst (build_dicts ff ?s2))
          \<and> snd p \<in> keys (fst (build_dicts ff ?s2))"
    by simp_all
  show ?case using n3 k1 k2 k3 m1 m2 m3 by auto
qed

lemma numbered_lookup:
  assumes "map snd idx = [0..<length idx]" "distinct (map fst idx)" "name \<in> keys idx"
  shows "\<exists>i<length idx. dict_get idx name = Inr i"
proof -
  from assms(3) obtain i where i: "i < length idx" and nm: "fst (idx ! i) = name"
    by (auto simp: keys_def in_set_conv_nth)
  have "map snd idx ! i = [0..<length idx] ! i" using assms(1) by simp
  then have "snd (idx ! i) = i" using i by simp
  then have "idx ! i = (name, i)" using nm by (metis prod.collapse)
  then have "(name, i) \<in> set idx" using i by (metis nth_mem)
  then have "map_of idx name = Some i" using assms(2) by simp
  then show ?thesis using i by (auto simp: dict_get_def)
qed

lemma add_item_square:
  "square n X \<Longrightarrow> i < n \<Longrightarrow> j < n \<Longrightarrow> \<exists>X'. add_item X i j v = Inr X' \<and> square n X'"
  by (auto simp: add_item_def square_def list_all_length nth_list_update)

lemma connect_nodes_square:
  assumes "map snd idx = [0..<length idx]" "distinct (map fst idx)"
    and "\<forall>pair\<in>set ff. fst pair \<in> keys idx \<and> snd pair \<in> keys idx"
    and "square (length idx) X"
  shows "\<exists>X'. connect_nodes idx ff X = Inr X' \<and> square (length idx) X'"
  using assms(3,4)
proof (induction ff arbitrary: X)
  case Nil
  then show ?case by simp
next
  case (Cons pair ff)
  from numbered_lookup[OF assms(1,2), of "fst pair"] Cons.prems(1)
  obtain i where i: "i < length idx" "dict_get idx (fst pair) = Inr i" by auto
  from numbered_lookup[OF assms(1,2), of "snd pair"] Cons.prems(1)
  obtain j where j: "j < length idx" "dict_get idx (snd pair) = Inr j" by auto
  from add_item_square[OF Cons.prems(2) i(1) j(1)]
  obtain X1 where x1: "add_item X i j 1 = Inr X1" "square (length idx) X1" by blast
  from add_item_square[OF x1(2) j(1) i(1)]
  obtain X2 where x2: "add_item X1 j i 1 = Inr X2" "square (length idx) X2" by blast
  from Cons.IH[OF _ x2(2)] Cons.prems(1)
  obtain X' where "connect_nodes idx ff X2 = Inr X'" "square (length idx) X'" by auto
  then show ?case using i j x1 x2 by simp
qed

lemma zeros_square: "square n (zeros n n)"
  by (simp add: square_def zeros_def list_all_length)

lemma init_succeeds:
  "\<exists>s. LinkPredictor_init nm ff = Inr s
     \<and> (square (length (self_index_dict s)) (self_R s) \<longrightarrow> well_formed s)"
proof -
  have n0: "numbered ([], [], 0)" by (simp add: numbered_def)
  obtain idx nmd i where b: "build_dicts ff ([], [], 0) = (idx, nmd, i)"
    by (cases "build_dicts ff ([], [], 0)") auto
  from build_dicts_numbered[OF n0, of ff] b
  have nb: "numbered (idx, nmd, i)"
    and ks: "\<forall>pair\<in>set ff. fst pair \<in> keys idx \<and> snd pair \<in> keys idx" by simp_all
  have sn: "map snd idx = [0..<length idx]" and d: "distinct (map fst idx)"
    and nd: "nmd = map (\<lambda>p. (snd p, fst p)) idx"
    using nb by (simp_all add: numbered_def)
  from connect_nodes_square[OF sn d ks zeros_square]
  obtain X where x: "connect_nodes idx ff (zeros (length idx) (length idx)) = Inr X"
    "square (length idx) X" by blast
  show ?thesis using b x sn d nd
    by (simp add: LinkPredictor_init_def well_formed_def)
qed

section \<open>Counterexamples on small graphs\<close>

lemma init_nobody: "LinkPredictor_init nm [] = Inr nobody"
  by (simp add: LinkPredictor_init_def effective_resistance_def csg_laplacian_def fill_diagonal_def
      scale_def zeros_def shape_def identity_def mat_sub_def nobody_def)


lemma init_close_friends:
  "LinkPredictor_init exact_numerics [(''a'', ''b''), (''a'', ''b'')] = Inr close_friends"
  using effective_resistance_edge[of 2]
  by (simp add: LinkPredictor_init_def register_name_def keys_def dict_get_def add_item_def
      zeros_def close_friends_def numeral_2_eq_2)

text \<open>
  Claim C4 as stated fails: the file with the line \<open>a,b\<close> twice gives the entry 2 between
  \<open>a\<close> and \<open>b\<close>, and \<open>add_link\<close> lowers it to 1.
\<close>

theorem accumulated_weight_lowered_counterexample:
  "LinkPredictor_init exact_numerics [(''a'', ''b''), (''a'', ''b'')] = Inr close_friends
   \<and> self_A close_friends ! 0 ! 1 = 2
   \<and> self_A (snd (add_link close_friends ''a'' ''b'')) ! 0 ! 1 = 1"
  by (simp add: init_close_friends)
    (simp add: close_friends_def add_link_def keys_def dict_get_def set_item_def)


text \<open>
  Claim C7 as stated fails: on the object built from an empty file, \<open>predict_link\<close> without a
  node raises the ValueError of the minimum search, which is not the error of an unknown name.
\<close>

theorem empty_graph_argmin_error_counterexample:
  "LinkPredictor_init exact_numerics [] = Inr nobody
   \<and> fst (predict_link nobody None) = Inl (ValueError ''attempt to get argmin of an empty sequence'')
   \<and> ''attempt to get argmin of an empty sequence'' \<noteq> ''Node not in graph''"
  by (simp add: init_nobody)
    (simp add: nobody_def predict_link_def R_mute_def mat_add_def scale_def identity_def
      shape_def argmin_def)

text \<open>
  Claim C5 as stated fails: on the object built from an empty file, \<open>predict_link\<close> without a
  node returns no pair of names.
\<close>

theorem empty_graph_no_pair_counterexample:
  "LinkPredictor_init exact_numerics [] = Inr nobody
   \<and> predict_link nobody None
       = (Inl (ValueError ''attempt to get argmin of an empty sequence''), nobody)"
  by (simp add: init_nobody)
    (simp add: nobody_def predict_link_def R_mute_def mat_add_def scale_def identity_def
      shape_def argmin_def)

section \<open>Prediction\<close>

text \<open>
  Claim C5, as amended. On a well-formed object with at least one node, \<open>predict_link\<close>
  without a node returns the names of the indices \<open>(i, j)\<close> at which the muted matrix
  \<open>(A + I) * 999 + R\<close> has its minimum, the first such position in row-major order. The
  constant is the literal 999; nothing relates it to the entries of \<open>R\<close>.
\<close>

theorem predict_link_global_first_minimum:
  assumes "well_formed self" "self_index_dict self \<noteq> []"
  shows "\<exists>i j name_i name_j.
       predict_link self None = (Inr (Name_pair name_i name_j), self)
     \<and> i < length (self_index_dict self) \<and> j < length (self_index_dict self)
     \<and> dict_get (self_index_dict self) name_i = Inr i
     \<and> dict_get (self_index_dict self) name_j = Inr j
     \<and> (\<forall>p<length (self_index_dict self). \<forall>q<length (self_index_dict self).
           R_mute self ! p ! q
             = (self_A self ! p ! q + (if p = q then 1 else 0)) * 999 + self_R self ! p ! q)
     \<and> (\<forall>p<length (self_index_dict self). \<forall>q<length (self_index_dict self).
           R_mute self ! i ! j \<le> R_mute self ! p ! q)
     \<and> (\<forall>p<length (self_index_dict self). \<forall>q<length (self_index_dict self).
           p * length (self_index_dict self) + q < i * length (self_index_dict self) + j
             \<longrightarrow> R_mute self ! i ! j < R_mute self ! p ! q)"
proof -
  let ?n = "length (self_index_dict self)"
  from predict_link_global[OF assms] obtain i j where i: "i < ?n" and j: "j < ?n"
    and run: "predict_link self None
         = (Inr (Name_pair (fst (self_index_dict self ! i)) (fst (self_index_dict self ! j))), self)"
    and m1: "\<forall>p<?n. \<forall>q<?n. R_mute self ! i ! j \<le> R_mute self ! p ! q"
    and m2: "\<forall>p<?n. \<forall>q<?n. p * ?n + q < i * ?n + j \<longrightarrow> R_mute self ! i ! j < R_mute self ! p ! q"
    by blast
  have ent: "\<forall>p<?n. \<forall>q<?n. R_mute self ! p ! q
             = (self_A self ! p ! q + (if p = q then 1 else 0)) * 999 + self_R self ! p ! q"
    using R_mute_nth[OF wf_square[OF assms(1)]] by blast
  show ?thesis
    apply (rule exI[of _ i], rule exI[of _ j])
    apply (rule exI[of _ "fst (self_index_dict self ! i)"])
    apply (rule exI[of _ "fst (self_index_dict self ! j)"])
    using i j run m1 m2 ent wf_lookup_nth[OF assms(1) i] wf_lookup_nth[OF assms(1) j]
    by simp
qed

theorem predict_link_global_first_minimum_witness:
  "well_formed path3 \<and> self_index_dict path3 \<noteq> []
   \<and> predict_link path3 None = (Inr (Name_pair ''a'' ''c''), path3)
   \<and> R_mute path3 = [[999, 1000, 2], [1000, 999, 1000], [2, 1000, 999]]
   \<and> (\<exists>i j name_i name_j.
       predict_link path3 None = (Inr (Name_pair name_i name_j), path3)
     \<and> i < length (self_index_dict path3) \<and> j < length (self_index_dict path3)
     \<and> dict_get (self_index_dict path3) name_i = Inr i
     \<and> dict_get (self_index_dict path3) name_j = Inr j
     \<and> (\<forall>p<length (self_index_dict path3). \<forall>q<length (self_index_dict path3).
           R_mute path3 ! p ! q
             = (self_A path3 ! p ! q + (if p = q then 1 else 0)) * 999 + self_R path3 ! p ! q)
     \<and> (\<forall>p<length (self_index_dict path3). \<forall>q<length (self_index_dict path3).
           R_mute path3 ! i ! j \<le> R_mute path3 ! p ! q)
     \<and> (\<forall>p<length (self_index_dict path3). \<forall>q<length (self_index_dict path3).
           p * length (self_index_dict path3) + q < i * length (self_index_dict path3) + j
             \<longrightarrow> R_mute path3 ! i ! j < R_mute path3 ! p ! q))"
proof -
  have h1: "well_formed path3" by (rule path3_wf)
  have h2: "self_index_dict path3 \<noteq> []" by (simp add: path3_def)
  have m: "R_mute path3 = [[999, 1000, 2], [1000, 999, 1000], [2, 1000, 999]]"
    by (simp add: path3_def R_mute_def mat_add_def scale_def identity_def shape_def upt3)
  have run: "predict_link path3 None = (Inr (Name_pair ''a'' ''c''), path3)"
    by (simp add: predict_link_def m argmin_def unravel_index_def shape_def)
      (simp add: path3_def dict_get_def)
  show ?thesis using h1 h2 m run predict_link_global_first_minimum[OF h1 h2] by blast
qed






lemma dict_get_key: "dict_get d k = Inr v \<Longrightarrow> k \<in> keys d"
  by (auto simp: dict_get_def keys_def split: option.splits dest: map_of_SomeD intro: rev_image_eqI)

text \<open>
  Claim C7, as amended. On a well-formed object, \<open>predict_link\<close> with a node raises the
  ValueError of an unknown name exactly when the node is not a key of \<open>index_dict\<close>, and
  returns a name otherwise; \<open>add_link\<close> raises its ValueError exactly when one of the two
  names is not a key, and returns normally otherwise; \<open>predict_link\<close> without a node returns
  a pair when the object has at least one node; and the constructor raises nothing on any list
  of pairs.
\<close>

theorem not_found_is_the_only_error:
  assumes wf: "well_formed self"
  shows "((fst (predict_link self (Some nd)) = Inl (ValueError ''Node not in graph''))
           = (nd \<notin> keys (self_index_dict self)))
     \<and> (nd \<in> keys (self_index_dict self)
           \<longrightarrow> (\<exists>b. fst (predict_link self (Some nd)) = Inr (Friend b)))
     \<and> ((fst (add_link self node1 node2) = Inl (ValueError ''nodes need to be in the graph''))
           = (node1 \<notin> keys (self_index_dict self) \<or> node2 \<notin> keys (self_index_dict self)))
     \<and> (node1 \<in> keys (self_index_dict self) \<and> node2 \<in> keys (self_index_dict self)
           \<longrightarrow> fst (add_link self node1 node2) = Inr ())
     \<and> (self_index_dict self \<noteq> []
           \<longrightarrow> (\<exists>a b. fst (predict_link self None) = Inr (Name_pair a b)))
     \<and> (\<exists>s. LinkPredictor_init nm ff = Inr s)"
proof -
  have p1: "\<exists>b. fst (predict_link self (Some nd)) = Inr (Friend b)"
    if "nd \<in> keys (self_index_dict self)"
    using predict_link_node[OF wf that] by force
  have p2: "fst (predict_link self (Some nd)) = Inl (ValueError ''Node not in graph'')"
    if "nd \<notin> keys (self_index_dict self)"
    using that by (simp add: predict_link_def)
  have a1: "fst (add_link self node1 node2) = Inr ()"
    if "node1 \<in> keys (self_index_dict self)" "node2 \<in> keys (self_index_dict self)"
    using add_link_present[OF wf that] by force
  have a2: "fst (add_link self node1 node2) = Inl (ValueError ''nodes need to be in the graph'')"
    if "node1 \<notin> keys (self_index_dict self) \<or> node2 \<notin> keys (self_index_dict self)"
    using that by (simp add: add_link_def)
  have g: "\<exists>a b. fst (predict_link self None) = Inr (Name_pair a b)"
    if "self_index_dict self \<noteq> []"
    using predict_link_global[OF wf that] by force
  have c: "\<exists>s. LinkPredictor_init nm ff = Inr s"
    using init_succeeds[of nm ff] by blast
  have e1: "(fst (predict_link self (Some nd)) = Inl (ValueError ''Node not in graph''))
           = (nd \<notin> keys (self_index_dict self))"
    using p1 p2 by (cases "nd \<in> keys (self_index_dict self)") auto
  have e2: "(fst (add_link self node1 node2) = Inl (ValueError ''nodes need to be in the graph''))
           = (node1 \<notin> keys (self_index_dict self) \<or> node2 \<notin> keys (self_index_dict self))"
    using a1 a2
    by (cases "node1 \<in> keys (self_index_dict self) \<and> node2 \<in> keys (self_index_dict self)") auto
  show ?thesis using e1 p1 e2 a1 g c by blast
qed

theorem not_found_is_the_only_error_witness:
  "well_formed path3
   \<and> ''zoe'' \<notin> keys (self_index_dict path3)
   \<and> fst (predict_link path3 (Some ''zoe'')) = Inl (ValueError ''Node not in graph'')
   \<and> ''b'' \<in> keys (self_index_dict path3)
   \<and> fst (predict_link path3 (Some ''b'')) = Inr (Friend ''b'')
   \<and> fst (add_link path3 ''b'' ''zoe'') = Inl (ValueError ''nodes need to be in the graph'')
   \<and> fst (add_link path3 ''b'' ''b'') = Inr ()
   \<and> self_index_dict path3 \<noteq> []
   \<and> fst (predict_link path3 None) = Inr (Name_pair ''a'' ''c'')
   \<and> (\<exists>s. LinkPredictor_init exact_numerics [(''a'', ''b'')] = Inr s)"
proof -
  have h: "well_formed path3" by (rule path3_wf)
  have k: "''zoe'' \<notin> keys (self_index_dict path3)" "''b'' \<in> keys (self_index_dict path3)"
    by (simp_all add: path3_keys)
  have m: "R_mute path3 = [[999, 1000, 2], [1000, 999, 1000], [2, 1000, 999]]"
    by (simp add: path3_def R_mute_def mat_add_def scale_def identity_def shape_def upt3)
  have ib: "dict_get (self_index_dict path3) ''b'' = Inr (Suc 0)"
    by (simp add: path3_def dict_get_def)
  have nb: "dict_get (self_name_dict path3) (Suc 0) = Inr ''b''"
    by (simp add: path3_def dict_get_def)
  have r1: "fst (predict_link path3 (Some ''b'')) = Inr (Friend ''b'')"
    by (simp add: predict_link_def k ib m argmin_def get_row_def nb)
  have r2: "fst (predict_link path3 None) = Inr (Name_pair ''a'' ''c'')"
    by (simp add: predict_link_def m argmin_def unravel_index_def shape_def)
      (simp add: path3_def dict_get_def)
  have n: "self_index_dict path3 \<noteq> []" by (simp add: path3_def)
  from not_found_is_the_only_error[OF h, of "''zoe''" "''b''" "''zoe''" exact_numerics "[(''a'', ''b'')]"]
    not_found_is_the_only_error[OF h, of "''b''" "''b''" "''b''" exact_numerics "[(''a'', ''b'')]"]
  show ?thesis using h k r1 r2 n by simp
qed

section \<open>The two Laplacians\<close>

lemma symmetric_nth: "symmetric A \<Longrightarrow> i < length A \<Longrightarrow> j < length A \<Longrightarrow> A ! i ! j = A ! j ! i"
  by (simp add: symmetric_def list_all_iff)

lemma matrix_eqI:
  assumes "square n X" "square n Y" "\<And>p q. p < n \<Longrightarrow> q < n \<Longrightarrow> X ! p ! q = Y ! p ! q"
  shows "X = Y"
proof (rule nth_equalityI)
  show "length X = length Y" using assms(1,2) by (simp add: square_def)
next
  fix p assume "p < length X"
  then have p: "p < n" using assms(1) by (simp add: square_def)
  show "X ! p = Y ! p"
  proof (rule nth_equalityI)
    show "length (X ! p) = length (Y ! p)" using assms(1,2) p by (simp add: square_nth)
  next
    fix q assume "q < length (X ! p)"
    then have "q < n" using assms(1) p by (simp add: square_nth)
    then show "X ! p ! q = Y ! p ! q" using assms(3) p by simp
  qed
qed

lemma mat_sub_square: "square n X \<Longrightarrow> square n Y \<Longrightarrow> square n (mat_sub X Y)"
  by (simp add: square_def mat_sub_def list_all_length)

lemma mat_sub_nth:
  "square n X \<Longrightarrow> square n Y \<Longrightarrow> p < n \<Longrightarrow> q < n \<Longrightarrow> mat_sub X Y ! p ! q = X ! p ! q - Y ! p ! q"
  by (simp add: square_def mat_sub_def list_all_length)

lemma zeros_nth: "p < n \<Longrightarrow> q < n \<Longrightarrow> zeros n n ! p ! q = 0"
  by (simp add: zeros_def)

lemma foldl_plus: "foldl (+) a xs = a + sum_list (xs :: real list)"
  by (induction xs arbitrary: a) (simp_all add: add.assoc)

lemma laplacian_rows_result:
  assumes "square n D" "j + length rows = n"
  shows "\<exists>D'. laplacian_rows rows D j = Inr D' \<and> square n D'
     \<and> (\<forall>p<n. \<forall>q<n. D' ! p ! q = (if p = q \<and> j \<le> p then sum_list (rows ! (p - j)) else D ! p ! q))"
  using assms
proof (induction rows arbitrary: D j)
  case Nil
  then show ?case by auto
next
  case (Cons row rows)
  have j: "j < n" using Cons.prems(2) by simp
  from set_item_square[OF Cons.prems(1) j j, of "foldl (+) 0 row"]
  obtain D1 where d1: "set_item D j j (foldl (+) 0 row) = Inr D1" and s1: "square n D1" by blast
  have e1: "D1 ! p ! q = (if p = j \<and> q = j then sum_list row else D ! p ! q)"
    if "p < n" "q < n" for p q
    using set_item_nth[OF d1, of p q] that Cons.prems(1)
    by (simp add: square_length square_nth foldl_plus)
  from Cons.IH[OF s1, of "j + 1"] Cons.prems(2)
  obtain D' where r: "laplacian_rows rows D1 (j + 1) = Inr D'" and s': "square n D'"
    and e': "\<forall>p<n. \<forall>q<n. D' ! p ! q
        = (if p = q \<and> j + 1 \<le> p then sum_list (rows ! (p - (j + 1))) else D1 ! p ! q)"
    by auto
  have "D' ! p ! q = (if p = q \<and> j \<le> p then sum_list ((row # rows) ! (p - j)) else D ! p ! q)"
    if "p < n" "q < n" for p q
  proof (cases "p = q \<and> j + 1 \<le> p")
    case True
    then have "p - j = Suc (p - (j + 1))" by arith
    then have "(row # rows) ! (p - j) = rows ! (p - (j + 1))"
      by (simp only: nth_Cons_Suc)
    then show ?thesis using e' that True by simp
  next
    case False
    then have "D' ! p ! q = D1 ! p ! q" using e' that by auto
    then show ?thesis using e1[OF that] False by (cases "p = j") auto
  qed
  then show ?case using d1 r s' by simp
qed

lemma diag_matrix_square: "square (length d) (diag_matrix d)"
  by (simp add: square_def diag_matrix_def list_all_length)

lemma diag_matrix_nth:
  "p < length d \<Longrightarrow> q < length d \<Longrightarrow> diag_matrix d ! p ! q = (if p = q then d ! p else 0)"
  by (simp add: diag_matrix_def)

lemma laplacian_spec_square: "square n A \<Longrightarrow> square n (laplacian_spec A)"
  using diag_matrix_square[of "row_sums A"]
  by (simp add: laplacian_spec_def mat_sub_square row_sums_def square_length)

lemma laplacian_spec_nth:
  assumes "square n A" "p < n" "q < n"
  shows "laplacian_spec A ! p ! q = (if p = q then sum_list (A ! p) else 0) - A ! p ! q"
proof -
  have l: "length (row_sums A) = n" using assms(1) by (simp add: row_sums_def square_length)
  have s: "square n (diag_matrix (row_sums A))" using diag_matrix_square[of "row_sums A"] l by simp
  have "row_sums A ! p = sum_list (A ! p)" using assms(1,2) by (simp add: row_sums_def square_length)
  then show ?thesis
    using mat_sub_nth[OF s assms] diag_matrix_nth[of p "row_sums A" q] l assms(2,3)
    by (auto simp: laplacian_spec_def)
qed

lemma laplacian_is_spec:
  assumes "square n A"
  shows "laplacian A = Inr (laplacian_spec A)"
proof -
  from laplacian_rows_result[OF zeros_square, of 0 A n] assms
  obtain D where r: "laplacian_rows A (zeros n n) 0 = Inr D" and s: "square n D"
    and e: "\<forall>p<n. \<forall>q<n. D ! p ! q = (if p = q then sum_list (A ! p) else zeros n n ! p ! q)"
    by (auto simp: square_length)
  have "mat_sub D A = laplacian_spec A"
  proof (rule matrix_eqI[of n])
    show "square n (mat_sub D A)" using s assms by (rule mat_sub_square)
    show "square n (laplacian_spec A)" using assms by (rule laplacian_spec_square)
    fix p q assume pq: "p < n" "q < n"
    show "mat_sub D A ! p ! q = laplacian_spec A ! p ! q"
      using mat_sub_nth[OF s assms pq] laplacian_spec_nth[OF assms pq] e pq
      by (simp add: zeros_nth)
  qed
  then show ?thesis using r assms by (simp add: laplacian_def square_shape)
qed


lemma fill_diagonal_square: "square n X \<Longrightarrow> square n (fill_diagonal X d)"
  by (simp add: square_def fill_diagonal_def list_all_length)

lemma fill_diagonal_nth:
  "square n X \<Longrightarrow> p < n \<Longrightarrow> q < n \<Longrightarrow> fill_diagonal X d ! p ! q = (if p = q then d p else X ! p ! q)"
  by (simp add: square_def fill_diagonal_def list_all_length)

lemma sum_without:
  fixes f :: "nat \<Rightarrow> real"
  assumes "j < n"
  shows "(\<Sum>i = 0..<n. if i = j then 0 else f i) = (\<Sum>i = 0..<n. f i) - f j"
proof -
  have "(\<Sum>i = 0..<n. f i) = (\<Sum>i = 0..<n. (if i = j then 0 else f i) + (if i = j then f j else 0))"
    by (rule sum.cong) auto
  also have "\<dots> = (\<Sum>i = 0..<n. if i = j then 0 else f i) + (\<Sum>i = 0..<n. if i = j then f j else 0)"
    by (rule sum.distrib)
  also have "(\<Sum>i = 0..<n. if i = j then f j else 0) = f j"
    using assms by simp
  finally show ?thesis by simp
qed

lemma csg_laplacian_is_spec:
  assumes sq: "square n A" and sym: "symmetric A"
  shows "csg_laplacian A = laplacian_spec A"
proof -
  let ?m = "fill_diagonal A (\<lambda>i. 0)"
  let ?w = "\<lambda>j. \<Sum>i\<leftarrow>[0..<length ?m]. ?m ! i ! j"
  have sm: "square n ?m" using sq by (rule fill_diagonal_square)
  have em: "?m ! p ! q = (if p = q then 0 else A ! p ! q)" if "p < n" "q < n" for p q
    using fill_diagonal_nth[OF sq that] .
  have ss: "square n (scale ?m (- 1))" using sm by (rule scale_square)
  have c: "csg_laplacian A = fill_diagonal (scale ?m (- 1)) ?w"
    by (simp add: csg_laplacian_def Let_def)
  have w: "?w j = sum_list (A ! j) - A ! j ! j" if j: "j < n" for j
  proof -
    have "?w j = (\<Sum>i = 0..<n. ?m ! i ! j)"
      using sm by (simp add: square_length interv_sum_list_conv_sum_set_nat)
    also have "\<dots> = (\<Sum>i = 0..<n. if i = j then 0 else A ! j ! i)"
      using em j symmetric_nth[OF sym] sq by (intro sum.cong) (auto simp: square_length)
    also have "\<dots> = (\<Sum>i = 0..<n. A ! j ! i) - A ! j ! j"
      using j by (rule sum_without)
    also have "(\<Sum>i = 0..<n. A ! j ! i) = sum_list (A ! j)"
      using square_nth[OF sq j] by (simp add: sum_list_sum_nth)
    finally show ?thesis .
  qed
  show ?thesis unfolding c
  proof (rule matrix_eqI[of n])
    show "square n (fill_diagonal (scale ?m (- 1)) ?w)" using ss by (rule fill_diagonal_square)
    show "square n (laplacian_spec A)" using sq by (rule laplacian_spec_square)
    fix p q assume pq: "p < n" "q < n"
    show "fill_diagonal (scale ?m (- 1)) ?w ! p ! q = laplacian_spec A ! p ! q"
      using fill_diagonal_nth[OF ss pq, of ?w] scale_nth[OF sm pq, of "- 1"] em[OF pq]
        laplacian_spec_nth[OF sq pq] w[OF pq(1)]
      by auto
  qed
qed

text \<open>
  Claim C9. On every square matrix \<open>laplacian\<close> raises nothing and returns
  \<open>diag(row sums of A) - A\<close>; on a symmetric one SciPy's \<open>csgraph.laplacian\<close>, the one
  \<open>effective_resistance\<close> calls, returns the same matrix.
\<close>

theorem laplacian_refines_spec:
  assumes "square n A"
  shows "laplacian A = Inr (laplacian_spec A)
     \<and> (symmetric A \<longrightarrow> csg_laplacian A = laplacian_spec A)"
  using laplacian_is_spec[OF assms] csg_laplacian_is_spec[OF assms] by simp

theorem laplacian_refines_spec_witness:
  "square 4 [[0, 1, 0, 0], [1, 0, 1, 0], [0, 1, 0, 1], [0, 0, 1, 0]]
   \<and> symmetric [[0, 1, 0, 0], [1, 0, 1, 0], [0, 1, 0, 1], [0, 0, 1, 0]]
   \<and> laplacian_spec [[0, 1, 0, 0], [1, 0, 1, 0], [0, 1, 0, 1], [0, 0, 1, 0]]
       = [[1, - 1, 0, 0], [- 1, 2, - 1, 0], [0, - 1, 2, - 1], [0, 0, - 1, 1]]
   \<and> laplacian [[0, 1, 0, 0], [1, 0, 1, 0], [0, 1, 0, 1], [0, 0, 1, 0]]
       = Inr [[1, - 1, 0, 0], [- 1, 2, - 1, 0], [0, - 1, 2, - 1], [0, 0, - 1, 1]]
   \<and> csg_laplacian [[0, 1, 0, 0], [1, 0, 1, 0], [0, 1, 0, 1], [0, 0, 1, 0]]
       = [[1, - 1, 0, 0], [- 1, 2, - 1, 0], [0, - 1, 2, - 1], [0, 0, - 1, 1]]"
proof -
  let ?A = "[[0, 1, 0, 0], [1, 0, 1, 0], [0, 1, 0, 1], [0, 0, 1, 0 :: real]]"
  have upt4: "[0..<4] = [0, 1, 2, 3]" by (simp add: upt_rec)
  have h1: "square 4 ?A" by (simp add: square_def)
  have h2: "symmetric ?A" by (simp add: symmetric_def upt4)
  have v: "laplacian_spec ?A = [[1, - 1, 0, 0], [- 1, 2, - 1, 0], [0, - 1, 2, - 1], [0, 0, - 1, 1]]"
    by (simp add: laplacian_spec_def row_sums_def diag_matrix_def mat_sub_def upt4)
  show ?thesis using h1 h2 v laplacian_refines_spec[OF h1] by simp
qed

section \<open>\<open>index\<close>\<close>

lemma index_loop_bound: "k \<le> Suc n \<Longrightarrow> index_loop nm A n k Ak \<le> Suc n"
proof (induction nm A n k Ak rule: index_loop.induct)
  case (1 nm A n k Ak)
  show ?case
  proof (cases "k \<le> n")
    case True
    show ?thesis
    proof (cases "np_matrix_rank nm Ak = np_matrix_rank nm (np_dot nm A Ak)")
      case same: True
      then show ?thesis using True by (subst index_loop.simps) simp
    next
      case False
      have "index_loop nm A n (k + 1) (np_dot nm A Ak) \<le> Suc n"
        using 1(1)[OF True refl refl False] True by simp
      then show ?thesis using True False by (subst index_loop.simps) simp
    qed
  next
    case False
    then show ?thesis using 1(2) by (subst index_loop.simps) simp
  qed
qed

lemma index_bound: "index nm A \<le> Suc (length A)"
  using index_loop_bound[where nm=nm and A=A and Ak=A and k=1 and n="length A"]
  by (simp add: index_def)

lemma index_loop_no_stabilisation:
  assumes "\<forall>i. k + i \<le> n \<longrightarrow>
      np_matrix_rank nm (((np_dot nm A) ^^ i) Ak) \<noteq> np_matrix_rank nm (((np_dot nm A) ^^ Suc i) Ak)"
    and "k \<le> Suc n"
  shows "index_loop nm A n k Ak = Suc n"
  using assms
proof (induction nm A n k Ak rule: index_loop.induct)
  case (1 nm A n k Ak)
  show ?case
  proof (cases "k \<le> n")
    case True
    have ne: "np_matrix_rank nm Ak \<noteq> np_matrix_rank nm (np_dot nm A Ak)"
      using 1(2)[rule_format, of 0] True by simp
    have step: "\<forall>i. k + 1 + i \<le> n \<longrightarrow>
      np_matrix_rank nm (((np_dot nm A) ^^ i) (np_dot nm A Ak))
        \<noteq> np_matrix_rank nm (((np_dot nm A) ^^ Suc i) (np_dot nm A Ak))"
    proof (intro allI impI)
      fix i assume "k + 1 + i \<le> n"
      then have "k + Suc i \<le> n" by simp
      from 1(2)[rule_format, OF this]
      show "np_matrix_rank nm (((np_dot nm A) ^^ i) (np_dot nm A Ak))
        \<noteq> np_matrix_rank nm (((np_dot nm A) ^^ Suc i) (np_dot nm A Ak))"
        by (simp add: funpow_swap1)
    qed
    have "index_loop nm A n (k + 1) (np_dot nm A Ak) = Suc n"
      using 1(1)[OF True refl refl ne step] True by simp
    then show ?thesis using True ne by (subst index_loop.simps) simp
  next
    case False
    then show ?thesis using 1(3) by (subst index_loop.simps) simp
  qed
qed

lemma exact_det_1x1: "exact_det [[x]] = x"
  by (simp add: exact_det_def)

lemma exact_rank_1x1: "exact_rank [[x]] = (if x = 0 then 0 else 1)"
  by (simp add: exact_rank_def shape_def)

lemma underflow_dot_1x1: "underflow_dot [[x]] [[y]] = [[flush (x * y)]]"
  by (simp add: underflow_dot_def matmul_def shape_def)

lemma index_loop_stabilisation:
  assumes "np_matrix_rank nm (((np_dot nm A) ^^ j) Ak) = np_matrix_rank nm (((np_dot nm A) ^^ Suc j) Ak)"
    and "\<forall>i<j. np_matrix_rank nm (((np_dot nm A) ^^ i) Ak)
            \<noteq> np_matrix_rank nm (((np_dot nm A) ^^ Suc i) Ak)"
    and "k + j \<le> n"
  shows "index_loop nm A n k Ak = k + j"
  using assms
proof (induction j arbitrary: k Ak)
  case 0
  then show ?case by (subst index_loop.simps) simp
next
  case (Suc j)
  have ne: "np_matrix_rank nm Ak \<noteq> np_matrix_rank nm (np_dot nm A Ak)"
    using Suc.prems(2)[rule_format, of 0] by simp
  have a: "np_matrix_rank nm (((np_dot nm A) ^^ j) (np_dot nm A Ak))
      = np_matrix_rank nm (((np_dot nm A) ^^ Suc j) (np_dot nm A Ak))"
    using Suc.prems(1) by (simp add: funpow_swap1)
  have b: "\<forall>i<j. np_matrix_rank nm (((np_dot nm A) ^^ i) (np_dot nm A Ak))
            \<noteq> np_matrix_rank nm (((np_dot nm A) ^^ Suc i) (np_dot nm A Ak))"
  proof (intro allI impI)
    fix i assume "i < j"
    then have "Suc i < Suc j" by simp
    from Suc.prems(2)[rule_format, OF this]
    show "np_matrix_rank nm (((np_dot nm A) ^^ i) (np_dot nm A Ak))
            \<noteq> np_matrix_rank nm (((np_dot nm A) ^^ Suc i) (np_dot nm A Ak))"
      by (simp add: funpow_swap1)
  qed
  have "index_loop nm A n (k + 1) (np_dot nm A Ak) = k + 1 + j"
    using Suc.IH[OF a b, of "k + 1"] Suc.prems(3) by simp
  then show ?case using ne Suc.prems(3) by (subst index_loop.simps) simp
qed

text \<open>
  Claim C1. \<open>index\<close> returns 0 when the determinant is not close to zero; otherwise it
  returns the first \<open>k\<close> in \<open>1..n\<close> at which the rank of the \<open>k\<close>-th power and of the
  next power agree, as the claim says. When the ranks agree at no \<open>k\<close> in \<open>1..n\<close> the loop
  ends with \<open>k = n + 1\<close> and that is returned: one more than the dimension, where the
  claim says \<open>n\<close>. The witness is the \<open>1 \<times> 1\<close> matrix with entry \<open>1e-200\<close>, whose square
  underflows to zero: rank 1, then rank 0, and \<open>index\<close> returns 2.
\<close>

theorem index_first_stabilisation_or_past_dimension:
  "index nm A \<le> Suc (length A)
   \<and> (\<not> isclose (la_det nm A) 0 \<longrightarrow> index nm A = 0)
   \<and> (isclose (la_det nm A) 0
        \<and> np_matrix_rank nm (((np_dot nm A) ^^ j) A) = np_matrix_rank nm (((np_dot nm A) ^^ Suc j) A)
        \<and> (\<forall>i<j. np_matrix_rank nm (((np_dot nm A) ^^ i) A)
              \<noteq> np_matrix_rank nm (((np_dot nm A) ^^ Suc i) A))
        \<and> Suc j \<le> length A
       \<longrightarrow> index nm A = Suc j)
   \<and> (isclose (la_det nm A) 0
        \<and> (\<forall>i<length A. np_matrix_rank nm (((np_dot nm A) ^^ i) A)
              \<noteq> np_matrix_rank nm (((np_dot nm A) ^^ Suc i) A))
       \<longrightarrow> index nm A = Suc (length A))"
proof (intro conjI impI)
  show "index nm A \<le> Suc (length A)" by (rule index_bound)
  show "index nm A = 0" if "\<not> isclose (la_det nm A) 0"
    using that by (simp add: index_def)
  show "index nm A = Suc j"
    if "isclose (la_det nm A) 0
        \<and> np_matrix_rank nm (((np_dot nm A) ^^ j) A) = np_matrix_rank nm (((np_dot nm A) ^^ Suc j) A)
        \<and> (\<forall>i<j. np_matrix_rank nm (((np_dot nm A) ^^ i) A)
              \<noteq> np_matrix_rank nm (((np_dot nm A) ^^ Suc i) A))
        \<and> Suc j \<le> length A"
    using that index_loop_stabilisation[where nm=nm and A=A and j=j and Ak=A and k=1 and n="length A"]
    by (simp add: index_def)
  show "index nm A = Suc (length A)"
    if "isclose (la_det nm A) 0
        \<and> (\<forall>i<length A. np_matrix_rank nm (((np_dot nm A) ^^ i) A)
              \<noteq> np_matrix_rank nm (((np_dot nm A) ^^ Suc i) A))"
    using that index_loop_no_stabilisation[where nm=nm and A=A and Ak=A and k=1 and n="length A"]
    by (simp add: index_def)
qed

theorem index_first_stabilisation_or_past_dimension_witness:
  "isclose (la_det underflow_numerics [[1 / 10 ^ 200]]) 0
   \<and> np_matrix_rank underflow_numerics [[1 / 10 ^ 200]] = 1
   \<and> np_dot underflow_numerics [[1 / 10 ^ 200]] [[1 / 10 ^ 200]] = [[0]]
   \<and> np_matrix_rank underflow_numerics [[0]] = 0
   \<and> length [[1 / 10 ^ 200 :: real]] = 1
   \<and> index underflow_numerics [[1 / 10 ^ 200]] = 2"
proof -
  let ?A = "[[1 / 10 ^ 200 :: real]]"
  have h1: "isclose (la_det underflow_numerics ?A) 0"
    by (simp add: underflow_numerics_def exact_numerics_def exact_det_1x1 isclose_def)
  have r: "np_matrix_rank underflow_numerics ?A = 1" "np_matrix_rank underflow_numerics [[0]] = 0"
    by (simp_all add: underflow_numerics_def exact_numerics_def exact_rank_1x1)
  have d: "np_dot underflow_numerics ?A ?A = [[0]]"
    by (simp add: underflow_numerics_def exact_numerics_def underflow_dot_1x1 flush_def)
  have h2: "\<forall>i<length ?A. np_matrix_rank underflow_numerics (((np_dot underflow_numerics ?A) ^^ i) ?A)
              \<noteq> np_matrix_rank underflow_numerics (((np_dot underflow_numerics ?A) ^^ Suc i) ?A)"
    using r d by simp
  from index_first_stabilisation_or_past_dimension[where nm=underflow_numerics and A="?A" and j=0] h1 h2
  have "index underflow_numerics ?A = Suc (length ?A)" by blast
  then show ?thesis using h1 r d by simp
qed

section \<open>\<open>drazin_inverse\<close> in exact arithmetic\<close>












































section \<open>\<open>effective_resistance\<close>\<close>

lemma h2_sq [simp]: "h2 * h2 = 1 / 2"
  by (simp add: h2_def)

lemma h2_sq_left [simp]: "h2 * (h2 * x) = x / 2"
proof -
  have "h2 * (h2 * x) = (h2 * h2) * x" by (simp only: mult.assoc)
  then show ?thesis by simp
qed

lemma h2_sq_mid [simp]: "h2 * (x * h2) = x / 2"
  by (simp add: mult.commute[of x h2])

lemma h2_sq_right [simp]: "x * h2 * h2 = x / 2"
  by (simp add: mult.assoc)

lemma h2_sq_around [simp]: "h2 * x * h2 = x / 2"
  by (simp add: mult.commute[of h2 x])

lemma upt4: "[0..<4] = [0, 1, 2, 3]" by (simp add: upt_rec)

lemma grounded_values:
  "grounded 0 = [[1, 0, 0, 0], [- 1, 1, 0, 0], [0, 0, 2, - 2], [0, 0, - 2, 2]]"
  "grounded (Suc 0) = [[1, - 1, 0, 0], [0, 1, 0, 0], [0, 0, 2, - 2], [0, 0, - 2, 2]]"
  "grounded 2 = [[1, - 1, 0, 0], [- 1, 1, 0, 0], [0, 0, 1, 0], [0, 0, - 2, 2]]"
  "grounded 3 = [[1, - 1, 0, 0], [- 1, 1, 0, 0], [0, 0, 2, - 2], [0, 0, 0, 1]]"
  by (simp_all add: grounded_def two_pairs_def csg_laplacian_def fill_diagonal_def scale_def
      identity_def Let_def upt4)

lemma schur_grounded:
  assumes "j < 4"
  shows "two_pairs_schur (grounded j) (\<lambda>x. default_tol < cmod x) = (T_large j, Q_large j, 3)"
    and "two_pairs_schur (grounded j) (\<lambda>x. cmod x \<le> default_tol) = (T_small j, Q_small j, 1)"
proof -
  have "j = 0 \<or> j = 1 \<or> j = 2 \<or> j = 3" using assms by auto
  then have f: "filter (\<lambda>i. grounded j = grounded i) [0, 1, 2, 3] = [j]"
    by (auto simp: grounded_values)
  show "two_pairs_schur (grounded j) (\<lambda>x. default_tol < cmod x) = (T_large j, Q_large j, 3)"
    unfolding two_pairs_schur_def f by (simp add: default_tol_def)
  show "two_pairs_schur (grounded j) (\<lambda>x. cmod x \<le> default_tol) = (T_small j, Q_small j, 1)"
    unfolding two_pairs_schur_def f by (simp add: default_tol_def)
qed







lemma schur_form_grounded_0:
  "schur_form (grounded (0)) (\<lambda>x. default_tol < cmod x)
     (two_pairs_schur (grounded (0)) (\<lambda>x. default_tol < cmod x))
   \<and> schur_form (grounded (0)) (\<lambda>x. cmod x \<le> default_tol)
     (two_pairs_schur (grounded (0)) (\<lambda>x. cmod x \<le> default_tol))"
proof -
  have j: "(0::nat) < 4" by simp
  have t: "transposed (Q_large (0)) = [[0, 1, 0, 0], [1, 0, 0, 0], [0, 0, h2, - h2], [0, 0, h2, h2]]"
    by (simp add: Q_large_def transposed_def shape_def upt4)
  have s: "transposed (Q_small (0)) = [[0, 0, h2, h2], [0, 1, 0, 0], [1, 0, 0, 0], [0, 0, h2, - h2]]"
    by (simp add: Q_small_def transposed_def shape_def upt4)
  show ?thesis
    unfolding schur_form_def schur_grounded[OF j] prod.case t s
    by (simp add: grounded_values Q_large_def Q_small_def T_large_def T_small_def matmul_def
        shape_def upt4 identity_def upper_triangular_def selected_lead_def eigenvalues_def diag_def
        default_tol_def)
qed


lemma schur_form_grounded_1:
  "schur_form (grounded (Suc 0)) (\<lambda>x. default_tol < cmod x)
     (two_pairs_schur (grounded (Suc 0)) (\<lambda>x. default_tol < cmod x))
   \<and> schur_form (grounded (Suc 0)) (\<lambda>x. cmod x \<le> default_tol)
     (two_pairs_schur (grounded (Suc 0)) (\<lambda>x. cmod x \<le> default_tol))"
proof -
  have j: "(Suc 0::nat) < 4" by simp
  have t: "transposed (Q_large (Suc 0)) = [[1, 0, 0, 0], [0, 1, 0, 0], [0, 0, h2, - h2], [0, 0, h2, h2]]"
    by (simp add: Q_large_def transposed_def shape_def upt4)
  have s: "transposed (Q_small (Suc 0)) = [[0, 0, h2, h2], [1, 0, 0, 0], [0, 1, 0, 0], [0, 0, h2, - h2]]"
    by (simp add: Q_small_def transposed_def shape_def upt4)
  show ?thesis
    unfolding schur_form_def schur_grounded[OF j] prod.case t s
    by (simp add: grounded_values Q_large_def Q_small_def T_large_def T_small_def matmul_def
        shape_def upt4 identity_def upper_triangular_def selected_lead_def eigenvalues_def diag_def
        default_tol_def)
qed


lemma schur_form_grounded_2:
  "schur_form (grounded (2)) (\<lambda>x. default_tol < cmod x)
     (two_pairs_schur (grounded (2)) (\<lambda>x. default_tol < cmod x))
   \<and> schur_form (grounded (2)) (\<lambda>x. cmod x \<le> default_tol)
     (two_pairs_schur (grounded (2)) (\<lambda>x. cmod x \<le> default_tol))"
proof -
  have j: "(2::nat) < 4" by simp
  have t: "transposed (Q_large (2)) = [[h2, - h2, 0, 0], [0, 0, 0, 1], [0, 0, 1, 0], [h2, h2, 0, 0]]"
    by (simp add: Q_large_def transposed_def shape_def upt4)
  have s: "transposed (Q_small (2)) = [[h2, h2, 0, 0], [h2, - h2, 0, 0], [0, 0, 0, 1], [0, 0, 1, 0]]"
    by (simp add: Q_small_def transposed_def shape_def upt4)
  show ?thesis
    unfolding schur_form_def schur_grounded[OF j] prod.case t s
    by (simp add: grounded_values Q_large_def Q_small_def T_large_def T_small_def matmul_def
        shape_def upt4 identity_def upper_triangular_def selected_lead_def eigenvalues_def diag_def
        default_tol_def)
qed


lemma schur_form_grounded_3:
  "schur_form (grounded (3)) (\<lambda>x. default_tol < cmod x)
     (two_pairs_schur (grounded (3)) (\<lambda>x. default_tol < cmod x))
   \<and> schur_form (grounded (3)) (\<lambda>x. cmod x \<le> default_tol)
     (two_pairs_schur (grounded (3)) (\<lambda>x. cmod x \<le> default_tol))"
proof -
  have j: "(3::nat) < 4" by simp
  have t: "transposed (Q_large (3)) = [[h2, - h2, 0, 0], [0, 0, 1, 0], [0, 0, 0, 1], [h2, h2, 0, 0]]"
    by (simp add: Q_large_def transposed_def shape_def upt4)
  have s: "transposed (Q_small (3)) = [[h2, h2, 0, 0], [h2, - h2, 0, 0], [0, 0, 1, 0], [0, 0, 0, 1]]"
    by (simp add: Q_small_def transposed_def shape_def upt4)
  show ?thesis
    unfolding schur_form_def schur_grounded[OF j] prod.case t s
    by (simp add: grounded_values Q_large_def Q_small_def T_large_def T_small_def matmul_def
        shape_def upt4 identity_def upper_triangular_def selected_lead_def eigenvalues_def diag_def
        default_tol_def)
qed











end
